theory Spec2Isabelle
  imports Main "HOL-Library.Word" "HOL-Library.Sublist"
begin

section \<open>Data model of Network/NetworkTCP.cpp\<close>

text \<open>
  A byte is a \<open>uint8_t\<close>. A \<open>std::string\<close> is a sequence of 8-bit \<open>char\<close>s; a
  \<open>char\<close> is identified with its bit pattern, so \<open>static_cast<uint8_t>(delimiter)\<close> and
  the element conversions of \<open>s.assign(d.begin(), d.end())\<close> and
  \<open>std::vector<uint8_t>(s.begin(), s.end())\<close> are identities on \<open>byte\<close>.
  A chunk is one \<open>std::vector\<close> of bytes in a \<open>std::deque\<close> queue.
\<close>

type_synonym byte = "8 word"
type_synonym chunk = "byte list"
type_synonym IPv4Address = "32 word \<times> 16 word"

datatype state_t = OPEN | CLOSING | CLOSED

text \<open>
  Both endpoint classes carry a \<open>state\<close> guarded by \<open>stateMutex\<close>. The field
  \<open>warnings\<close> counts the messages handed to the \<open>WARN\<close> macro so far.
\<close>

record endpoint =
  state :: state_t
  warnings :: nat

text \<open>
  \<open>TCPConnection\<close>: the members of the class and of its \<open>InternalData\<close>.
  \<open>size_t\<close> values are natural numbers: each is a number of bytes held in memory at
  one time (or an index into them), so it stays below the range of \<open>size_t\<close>.
  \<open>lastActiveTime\<close> (a \<open>float\<close> clock reading) is left out.
\<close>

record TCPConnection = endpoint +
  tcpSocket :: int
  remoteIp :: IPv4Address
  inQueue :: "chunk list"
  inQueueDataSize :: nat
  outQueue :: "chunk list"

text \<open>
  Modelled from the spec: \<open>isOpen\<close> is declared in NetworkTCP.h, which is not among the
  sources. \<open>is_open()\<close> reads the state under the state lock and answers whether it is
  \<open>OPEN\<close>.
\<close>

definition isOpen :: "'a endpoint_scheme \<Rightarrow> bool" where
  "isOpen c = (state c = OPEN)"

text \<open>
  Modelled from the spec: \<open>mayBeOpen\<close> (NetworkTCP.h) is the same test as \<open>isOpen\<close>,
  read without the state lock.
\<close>

definition mayBeOpen :: "'a endpoint_scheme \<Rightarrow> bool" where
  "mayBeOpen c = (state c = OPEN)"

text \<open>
  Modelled from the spec: \<open>setState\<close> (NetworkTCP.h) makes a transition: it stores the
  new state under the state lock, which is taken briefly.
\<close>

definition setState :: "state_t \<Rightarrow> 'a endpoint_scheme \<Rightarrow> 'a endpoint_scheme" where
  "setState s c = c\<lparr>state := s\<rparr>"

text \<open>
  Modelled from the spec: \<open>WARN\<close> (Macros.h) hands one message to the logging sink for
  warnings.
\<close>

definition WARN :: "'a endpoint_scheme \<Rightarrow> 'a endpoint_scheme" where
  "WARN c = c\<lparr>warnings := Suc (warnings c)\<rparr>"

text \<open>
  The constructor (line 105): state \<open>OPEN\<close>, \<open>inQueueDataSize(0)\<close>, both queues empty.
\<close>

definition newTCPConnection :: "int \<Rightarrow> IPv4Address \<Rightarrow> TCPConnection" where
  "newTCPConnection socket address =
     \<lparr>state = OPEN, warnings = 0, tcpSocket = socket, remoteIp = address,
      inQueue = [], inQueueDataSize = 0, outQueue = []\<rparr>"

section \<open>Extraction from the in-queue\<close>

text \<open>
  The \<open>for\<close> loop of \<open>extractDataFromInQueue\<close> (lines 312-324). The iterator splits
  the deque into the packets already visited (\<open>visited\<close>, possibly overwritten by
  \<open>*it = remainder\<close>) and the packets from \<open>it\<close> on. The loop returns the deque as it
  left it, \<open>data\<close>, \<open>remainingBytes\<close> and \<open>packetsToRemove\<close>.
\<close>

fun extractLoop ::
  "chunk list \<Rightarrow> chunk list \<Rightarrow> byte list \<Rightarrow> nat \<Rightarrow> nat \<Rightarrow>
     chunk list \<times> byte list \<times> nat \<times> nat" where
  "extractLoop visited [] data remainingBytes packetsToRemove =
     (visited, data, remainingBytes, packetsToRemove)"
| "extractLoop visited (p # rest) data remainingBytes packetsToRemove =
     (if remainingBytes > 0 then
        (if remainingBytes \<ge> length p then
           extractLoop (visited @ [p]) rest (data @ p)
             (remainingBytes - length p) (Suc packetsToRemove)
         else
           extractLoop (visited @ [drop remainingBytes p]) rest
             (data @ take remainingBytes p) 0 packetsToRemove)
      else (visited @ p # rest, data, remainingBytes, packetsToRemove))"

text \<open>\<open>pop_front\<close> repeated \<open>packetsToRemove\<close> times (lines 329-331).\<close>

fun popFront :: "nat \<Rightarrow> chunk list \<Rightarrow> chunk list" where
  "popFront 0 q = q"
| "popFront (Suc n) q = popFront n (tl q)"

definition extractDataFromInQueue ::
  "nat \<Rightarrow> TCPConnection \<Rightarrow> byte list \<times> TCPConnection" where
  "extractDataFromInQueue numBytes c =
     (if inQueueDataSize c < numBytes \<or> numBytes = 0 then ([], c)
      else
        (case extractLoop [] (inQueue c) [] numBytes 0 of
           (q, data, remainingBytes, packetsToRemove) \<Rightarrow>
             (data,
              c\<lparr>inQueue := (if packetsToRemove = length q then [] else popFront packetsToRemove q),
                inQueueDataSize := inQueueDataSize c - numBytes\<rparr>)))"

text \<open>
  \<open>receiveData()\<close> and \<open>receiveData(numBytes)\<close> (lines 338-355). The test outside the
  lock and the test inside \<open>extractDataFromInQueue\<close> read the same counter here.
\<close>

definition receiveDataAll :: "TCPConnection \<Rightarrow> byte list \<times> TCPConnection" where
  "receiveDataAll c =
     (if inQueueDataSize c > 0 then extractDataFromInQueue (inQueueDataSize c) c
      else ([], c))"

definition receiveData :: "nat \<Rightarrow> TCPConnection \<Rightarrow> byte list \<times> TCPConnection" where
  "receiveData numBytes c =
     (if inQueueDataSize c \<ge> numBytes then extractDataFromInQueue numBytes c
      else ([], c))"

text \<open>
  The delimiter search of \<open>receiveString\<close> (lines 365-375): the inner loop over the bytes
  of one package, and the outer loop over the packages while \<open>!found\<close>.
\<close>

fun scanPackage :: "byte \<Rightarrow> chunk \<Rightarrow> nat \<Rightarrow> nat \<times> bool" where
  "scanPackage delimiter [] pos = (pos, False)"
| "scanPackage delimiter (byteEntry # bs) pos =
     (if byteEntry = delimiter then (pos, True)
      else scanPackage delimiter bs (Suc pos))"

fun scanQueue :: "byte \<Rightarrow> chunk list \<Rightarrow> nat \<Rightarrow> bool \<Rightarrow> nat \<times> bool" where
  "scanQueue delimiter [] pos found = (pos, found)"
| "scanQueue delimiter (package # rest) pos found =
     (if found then (pos, found)
      else (case scanPackage delimiter package pos of
              (pos', found') \<Rightarrow> scanQueue delimiter rest pos' found'))"

definition receiveString :: "byte \<Rightarrow> TCPConnection \<Rightarrow> byte list \<times> TCPConnection" where
  "receiveString delimiter c =
     (if inQueueDataSize c = 0 then ([], c)
      else
        (case scanQueue delimiter (inQueue c) 0 False of
           (pos, found) \<Rightarrow>
             (if found then
                (case extractDataFromInQueue (pos + 1) c of
                   (d, c') \<Rightarrow> ((if d \<noteq> [] then d else []), c'))
              else ([], c))))"

text \<open>\<open>sendData\<close> and \<open>sendString\<close> (lines 127-138).\<close>

definition sendData :: "chunk \<Rightarrow> TCPConnection \<Rightarrow> bool \<times> TCPConnection" where
  "sendData data c =
     (if \<not> isOpen c then (False, c)
      else (True, c\<lparr>outQueue := outQueue c @ [data]\<rparr>))"

definition sendString :: "byte list \<Rightarrow> TCPConnection \<Rightarrow> bool \<times> TCPConnection" where
  "sendString s c = sendData s c"

text \<open>
  The counter \<open>inQueueDataSize\<close> is the number of bytes stored in \<open>inQueue\<close>.
\<close>

definition queueBytes :: "chunk list \<Rightarrow> byte list" where
  "queueBytes q = concat q"

definition inQueueInv :: "TCPConnection \<Rightarrow> bool" where
  "inQueueInv c = (inQueueDataSize c = length (queueBytes (inQueue c)))"


section \<open>The worker of a connection\<close>

text \<open>
  The worker's system calls are inputs of the model. \<open>send k\<close> is what the \<open>k\<close>-th call
  of \<open>send\<close> (or \<open>SDLNet_TCP_Send\<close>) of one drain returns. One pass of the receive loop
  reads one \<open>recv_io\<close>: what \<open>poll\<close> returned and left in \<open>revents\<close> (on the SDL
  backend \<open>pollResult\<close> is what \<open>SDLNet_CheckSockets\<close> returned and \<open>revents\<close> is
  not read), what \<open>recv\<close> returned and the contents of \<open>buffer\<close> afterwards.
\<close>

record poll_io =
  pollResult :: int
  revents :: int

record recv_io = poll_io +
  bytesRecieved :: int
  buffer :: "byte list"

text \<open>The event flag \<open>POLLIN\<close> of \<open>poll.h\<close>, with its value on Linux.\<close>

definition POLLIN :: int where
  "POLLIN = 1"

text \<open>
  \<open>const int len = data.size();\<close> (lines 160 and 226): the conversion of a
  \<open>size_t\<close> to a 32-bit \<open>int\<close> keeps the low 32 bits.
\<close>

definition int_of_size :: "nat \<Rightarrow> int" where
  "int_of_size n = sint (word_of_nat n :: 32 word)"

text \<open>
  Sending outgoing data, POSIX backend (lines 224-234). The loop runs on the front of
  \<open>outQueue\<close>; the list argument is the queue from the front on.
\<close>

fun sendLoop_posix :: "(nat \<Rightarrow> int) \<Rightarrow> nat \<Rightarrow> chunk list \<Rightarrow> TCPConnection \<Rightarrow> TCPConnection" where
  "sendLoop_posix send k [] c = c\<lparr>outQueue := []\<rparr>"
| "sendLoop_posix send k (data # q) c =
     (if send k < int_of_size (length data)
      then setState CLOSING (WARN (c\<lparr>outQueue := data # q\<rparr>))
      else sendLoop_posix send (Suc k) q c)"

definition drainOutQueue_posix :: "(nat \<Rightarrow> int) \<Rightarrow> TCPConnection \<Rightarrow> TCPConnection" where
  "drainOutQueue_posix send c = sendLoop_posix send 0 (outQueue c) c"

text \<open>Sending outgoing data, SDL backend (lines 155-168): no warning is written.\<close>

fun sendLoop_sdl :: "(nat \<Rightarrow> int) \<Rightarrow> nat \<Rightarrow> chunk list \<Rightarrow> TCPConnection \<Rightarrow> TCPConnection" where
  "sendLoop_sdl send k [] c = c\<lparr>outQueue := []\<rparr>"
| "sendLoop_sdl send k (data # q) c =
     (if send k < int_of_size (length data)
      then setState CLOSING (c\<lparr>outQueue := data # q\<rparr>)
      else sendLoop_sdl send (Suc k) q c)"

definition drainOutQueue_sdl :: "(nat \<Rightarrow> int) \<Rightarrow> TCPConnection \<Rightarrow> TCPConnection" where
  "drainOutQueue_sdl send c =
     (if outQueue c \<noteq> [] then sendLoop_sdl send 0 (outQueue c) c else c)"

text \<open>
  The append of a received chunk under the in-queue lock (lines 276-280 and 196-200):
  \<open>inQueue.emplace_back(buffer, buffer + bytesRecieved)\<close> and the update of the counter.
\<close>

definition appendReceived :: "recv_io \<Rightarrow> TCPConnection \<Rightarrow> TCPConnection" where
  "appendReceived io c =
     c\<lparr>inQueue := inQueue c @ [take (nat (bytesRecieved io)) (buffer io)],
       inQueueDataSize := inQueueDataSize c + nat (bytesRecieved io)\<rparr>"

text \<open>
  Receiving data, POSIX backend (lines 238-281). The result is the connection when the
  loop is left, or when the worker has consumed all the given system call results.
\<close>

fun receiveLoop_posix :: "recv_io list \<Rightarrow> TCPConnection \<Rightarrow> TCPConnection" where
  "receiveLoop_posix [] c = c"
| "receiveLoop_posix (io # ios) c =
     (if \<not> isOpen c then c
      else if pollResult io = 0 then c
      else if pollResult io < 0 then setState CLOSING (WARN c)
      else if revents io \<noteq> POLLIN then setState CLOSING (WARN c)
      else if bytesRecieved io = 0 then setState CLOSING c
      else if bytesRecieved io < 0 then setState CLOSING (WARN c)
      else receiveLoop_posix ios (appendReceived io c))"

text \<open>Receiving data, SDL backend (lines 170-201).\<close>

fun receiveLoop_sdl :: "recv_io list \<Rightarrow> TCPConnection \<Rightarrow> TCPConnection" where
  "receiveLoop_sdl [] c = c"
| "receiveLoop_sdl (io # ios) c =
     (if \<not> mayBeOpen c \<and> \<not> isOpen c then c
      else if pollResult io = 0 then c
      else if pollResult io < 0 then WARN (setState CLOSING c)
      else if bytesRecieved io \<le> 0 then setState CLOSING c
      else receiveLoop_sdl ios (appendReceived io c))"

text \<open>One pass of the body of \<open>while (isOpen())\<close> in \<open>TCPConnection::run\<close>.\<close>

definition tick_posix :: "(nat \<Rightarrow> int) \<Rightarrow> recv_io list \<Rightarrow> TCPConnection \<Rightarrow> TCPConnection" where
  "tick_posix send ios c = receiveLoop_posix ios (drainOutQueue_posix send c)"

definition tick_sdl :: "(nat \<Rightarrow> int) \<Rightarrow> recv_io list \<Rightarrow> TCPConnection \<Rightarrow> TCPConnection" where
  "tick_sdl send ios c = receiveLoop_sdl ios (drainOutQueue_sdl send c)"

text \<open>
  The contract of \<open>recv\<close>: it returns at most the number of bytes asked for, the size of
  \<open>buffer\<close>.
\<close>

definition recvContract :: "recv_io \<Rightarrow> bool" where
  "recvContract io = (bytesRecieved io \<le> int (length (buffer io)))"

section \<open>Operations on a connection\<close>

datatype conn_op =
    ReceiveAll
  | Receive nat
  | ReceiveString byte
  | SendData chunk
  | SendString "byte list"
  | TickPosix "nat \<Rightarrow> int" "recv_io list"
  | TickSDL "nat \<Rightarrow> int" "recv_io list"

fun applyOp :: "conn_op \<Rightarrow> TCPConnection \<Rightarrow> TCPConnection" where
  "applyOp ReceiveAll c = snd (receiveDataAll c)"
| "applyOp (Receive n) c = snd (receiveData n c)"
| "applyOp (ReceiveString d) c = snd (receiveString d c)"
| "applyOp (SendData data) c = snd (sendData data c)"
| "applyOp (SendString s) c = snd (sendString s c)"
| "applyOp (TickPosix send ios) c = tick_posix send ios c"
| "applyOp (TickSDL send ios) c = tick_sdl send ios c"

fun opContract :: "conn_op \<Rightarrow> bool" where
  "opContract (TickPosix send ios) = list_all recvContract ios"
| "opContract (TickSDL send ios) = list_all recvContract ios"
| "opContract _ = True"

fun applyOps :: "conn_op list \<Rightarrow> TCPConnection \<Rightarrow> TCPConnection" where
  "applyOps [] c = c"
| "applyOps (op # ops) c = applyOps ops (applyOp op c)"

section \<open>The server\<close>

record TCPServer = endpoint +
  tcpServerSocket :: int
  newConnectionsQueue :: "TCPConnection list"

text \<open>
  One pass of the worker's loop reads one \<open>accept_io\<close>: what \<open>poll\<close> returned and left
  in \<open>revents\<close>, what \<open>accept\<close> returned, and the address \<open>fromSockaddr\<close> made of
  \<open>clientAddr\<close>.
\<close>

record accept_io = poll_io +
  clientSocket :: int
  clientIp :: IPv4Address

definition newTCPServer :: "int \<Rightarrow> TCPServer" where
  "newTCPServer socket =
     \<lparr>state = OPEN, warnings = 0, tcpServerSocket = socket, newConnectionsQueue = []\<rparr>"

text \<open>\<open>TCPServer::getIncomingConnection\<close> (lines 491-499); a null reference is \<open>None\<close>.\<close>

definition getIncomingConnection :: "TCPServer \<Rightarrow> TCPConnection option \<times> TCPServer" where
  "getIncomingConnection s =
     (case newConnectionsQueue s of
        [] \<Rightarrow> (None, s)
      | connection # q \<Rightarrow> (Some connection, s\<lparr>newConnectionsQueue := q\<rparr>))"

text \<open>
  One pass of \<open>while (isOpen())\<close> in \<open>TCPServer::run\<close>, POSIX backend (lines 534-561).
  After a \<open>break\<close> the state is \<open>CLOSING\<close>, and a further pass does nothing.
\<close>

definition serverPass_posix :: "accept_io \<Rightarrow> TCPServer \<Rightarrow> TCPServer" where
  "serverPass_posix io s =
     (if \<not> isOpen s then s
      else if pollResult io < 0 then setState CLOSING (WARN s)
      else if pollResult io > 0 then
        (if revents io \<noteq> POLLIN then setState CLOSING (WARN s)
         else s\<lparr>newConnectionsQueue :=
                  newConnectionsQueue s @ [newTCPConnection (clientSocket io) (clientIp io)]\<rparr>)
      else s)"

text \<open>
  One pass of \<open>while (isOpen())\<close> in \<open>TCPServer::run\<close>, SDL backend (lines 504-519):
  \<open>clientSocket\<close> is the handle \<open>SDLNet_TCP_Accept\<close> returned, 0 for none.
\<close>

definition serverPass_sdl :: "accept_io \<Rightarrow> TCPServer \<Rightarrow> TCPServer" where
  "serverPass_sdl io s =
     (if \<not> isOpen s then s
      else if clientSocket io \<noteq> 0 then
        s\<lparr>newConnectionsQueue :=
            newConnectionsQueue s @ [newTCPConnection (clientSocket io) (clientIp io)]\<rparr>
      else s)"

text \<open>
  The first block of \<open>TCPServer::close\<close> (lines 577-583): every pending connection is
  closed and popped.
\<close>

definition closePending :: "TCPServer \<Rightarrow> TCPServer" where
  "closePending s = s\<lparr>newConnectionsQueue := []\<rparr>"

text \<open>
  The connection the worker builds on a result of \<open>accept\<close> (lines 558-559) or of
  \<open>SDLNet_TCP_Accept\<close> (lines 514-515).
\<close>

definition connectionOf :: "accept_io \<Rightarrow> TCPConnection" where
  "connectionOf io = newTCPConnection (clientSocket io) (clientIp io)"

text \<open>
  The connections a pass accepts, read off the results of the system calls alone. On the
  POSIX backend the pass of an open server calls \<open>accept\<close> when \<open>poll\<close> returned a
  positive number with \<open>revents\<close> equal to \<open>POLLIN\<close>, and what \<open>accept\<close> returned
  is a connection. On the SDL backend the pass of an open server calls
  \<open>SDLNet_TCP_Accept\<close>, and a handle other than 0 is a connection.
\<close>

definition accepted_posix :: "accept_io \<Rightarrow> TCPServer \<Rightarrow> TCPConnection list" where
  "accepted_posix io s =
     (if state s = OPEN \<and> 0 < pollResult io \<and> revents io = POLLIN then [connectionOf io]
      else [])"

definition accepted_sdl :: "accept_io \<Rightarrow> TCPServer \<Rightarrow> TCPConnection list" where
  "accepted_sdl io s =
     (if state s = OPEN \<and> clientSocket io \<noteq> 0 then [connectionOf io] else [])"

text \<open>
  A history of a server: passes of the worker (of either backend), calls of
  \<open>getIncomingConnection\<close> and the first block of \<open>close\<close>, in the order in which
  they take the queue's lock. \<open>serverHistory\<close> returns the connections accepted, as
  the results of the system calls give them, the connections the calls of
  \<open>getIncomingConnection\<close> have returned, both in order, and the server.
\<close>

datatype server_event =
  WorkerPass accept_io | WorkerPassSDL accept_io | GetIncoming | ClosePending

fun serverHistory ::
  "server_event list \<Rightarrow> TCPServer \<Rightarrow> TCPConnection list \<times> TCPConnection list \<times> TCPServer" where
  "serverHistory [] s = ([], [], s)"
| "serverHistory (WorkerPass io # es) s =
     (case serverHistory es (serverPass_posix io s) of
        (accepted, returned, s') \<Rightarrow> (accepted_posix io s @ accepted, returned, s'))"
| "serverHistory (WorkerPassSDL io # es) s =
     (case serverHistory es (serverPass_sdl io s) of
        (accepted, returned, s') \<Rightarrow> (accepted_sdl io s @ accepted, returned, s'))"
| "serverHistory (GetIncoming # es) s =
     (case getIncomingConnection s of
        (r, s1) \<Rightarrow>
          (case serverHistory es s1 of
             (accepted, returned, s') \<Rightarrow>
               (accepted, (case r of None \<Rightarrow> [] | Some c \<Rightarrow> [c]) @ returned, s')))"
| "serverHistory (ClosePending # es) s = serverHistory es (closePending s)"

section \<open>The threads of a connection\<close>

text \<open>
  The worker thread runs \<open>TCPConnection::run\<close>; any number of other threads call
  \<open>TCPConnection::close\<close>. Each step below holds \<open>stateMutex\<close> at most once, so the
  steps of different threads interleave as whole steps.

  The worker is at the test of \<open>while (isOpen())\<close> (line 219), in the body of the loop,
  before the block after the loop (lines 283-291), or has returned from \<open>run\<close>.
  A thread in \<open>close\<close> (lines 296-301) has not called it, has the value of \<open>isOpen()\<close>
  in hand, is past the \<open>if\<close>, waits in \<open>join\<close>, or has returned.
\<close>

datatype worker_pc = W_LoopTest | W_Body | W_AfterLoop | W_Returned

datatype close_pc = C_NotCalled | C_Tested bool | C_PastIf | C_InJoin | C_Returned

record TCPConnectionThreads = TCPConnection +
  worker :: worker_pc
  closers :: "nat \<Rightarrow> close_pc"
  socketCloses :: nat

text \<open>
  Modelled from the spec: \<open>UserThread\<close> is declared in Concurrency/Thread.h, which is not
  among the sources. The constructor starts the worker; \<open>close\<close> joins the worker if it is
  still running.
\<close>

definition isActive :: "TCPConnectionThreads \<Rightarrow> bool" where
  "isActive t = (worker t \<noteq> W_Returned)"

definition startedConnection :: "int \<Rightarrow> IPv4Address \<Rightarrow> TCPConnectionThreads" where
  "startedConnection socket address =
     \<lparr>state = OPEN, warnings = 0, tcpSocket = socket, remoteIp = address,
      inQueue = [], inQueueDataSize = 0, outQueue = [],
      worker = W_LoopTest, closers = (\<lambda>_. C_NotCalled), socketCloses = 0\<rparr>"

text \<open>
  A step of the worker. In the body the only writes to \<open>state\<close> are the calls
  \<open>setState(CLOSING)\<close> on a failed or short system call or on the peer's shutdown
  (lines 230, 250, 257, 266, 271); \<open>toClosing\<close> says whether this pass makes one.
  After the loop the worker closes the socket, writes a warning if \<open>::close\<close> did not
  return 0 (\<open>closeResult\<close> is what it returned), stores 0 in \<open>tcpSocket\<close> and sets
  \<open>CLOSED\<close> (lines 283-291, the POSIX backend; the SDL backend, lines 203-208, closes the
  socket and sets \<open>CLOSED\<close> in the same way, writes no warning and leaves the handle as
  it is).
\<close>

definition workerStep ::
  "bool \<Rightarrow> int \<Rightarrow> TCPConnectionThreads \<Rightarrow> TCPConnectionThreads" where
  "workerStep toClosing closeResult t =
     (case worker t of
        W_LoopTest \<Rightarrow> t\<lparr>worker := (if isOpen t then W_Body else W_AfterLoop)\<rparr>
      | W_Body \<Rightarrow> (if toClosing then setState CLOSING t else t)\<lparr>worker := W_LoopTest\<rparr>
      | W_AfterLoop \<Rightarrow>
          setState CLOSED
            ((if closeResult \<noteq> 0 then WARN t else t)
               \<lparr>socketCloses := Suc (socketCloses t), tcpSocket := 0\<rparr>)
            \<lparr>worker := W_Returned\<rparr>
      | W_Returned \<Rightarrow> t)"

text \<open>
  A step of thread \<open>k\<close> in \<open>close\<close>: \<open>isOpen()\<close>; \<open>setState(CLOSING)\<close> if it was true;
  \<open>isActive()\<close>; \<open>join()\<close>, which returns once the worker has returned. A thread that
  has returned may call \<open>close\<close> again.
\<close>

definition closeStep :: "nat \<Rightarrow> TCPConnectionThreads \<Rightarrow> TCPConnectionThreads" where
  "closeStep k t =
     (case closers t k of
        C_NotCalled \<Rightarrow> t\<lparr>closers := (closers t)(k := C_Tested (isOpen t))\<rparr>
      | C_Returned \<Rightarrow> t\<lparr>closers := (closers t)(k := C_Tested (isOpen t))\<rparr>
      | C_Tested b \<Rightarrow> (if b then setState CLOSING t else t)\<lparr>closers := (closers t)(k := C_PastIf)\<rparr>
      | C_PastIf \<Rightarrow> t\<lparr>closers := (closers t)(k := (if isActive t then C_InJoin else C_Returned))\<rparr>
      | C_InJoin \<Rightarrow> (if worker t = W_Returned then t\<lparr>closers := (closers t)(k := C_Returned)\<rparr> else t))"

datatype thread_event = Worker bool int | Closer nat

fun threadStep :: "thread_event \<Rightarrow> TCPConnectionThreads \<Rightarrow> TCPConnectionThreads" where
  "threadStep (Worker toClosing closeResult) t = workerStep toClosing closeResult t"
| "threadStep (Closer k) t = closeStep k t"

fun schedule :: "thread_event list \<Rightarrow> TCPConnectionThreads \<Rightarrow> TCPConnectionThreads" where
  "schedule [] t = t"
| "schedule (e # es) t = schedule es (threadStep e t)"

text \<open>The states in the order of the life cycle.\<close>

fun rank :: "state_t \<Rightarrow> nat" where
  "rank OPEN = 0"
| "rank CLOSING = 1"
| "rank CLOSED = 2"

text \<open>
  What holds of the threads of a connection in every interleaving: the socket is closed
  by the worker's last step and by nothing else; the worker leaves its loop, and a thread
  in \<open>close\<close> gets past the \<open>if\<close>, only when the state is not \<open>OPEN\<close>; a call of
  \<open>close\<close> returns only after the worker has.
\<close>

definition threadsInv :: "TCPConnectionThreads \<Rightarrow> bool" where
  "threadsInv t =
     ((socketCloses t = (if worker t = W_Returned then 1 else 0)) \<and>
      (worker t = W_AfterLoop \<or> worker t = W_Returned \<longrightarrow> state t \<noteq> OPEN) \<and>
      (worker t = W_Returned \<longrightarrow> tcpSocket t = 0) \<and>
      (state t = CLOSED \<longrightarrow> worker t = W_Returned) \<and>
      (\<forall>k. closers t k = C_Tested False \<or> closers t k = C_PastIf \<or>
           closers t k = C_InJoin \<or> closers t k = C_Returned \<longrightarrow> state t \<noteq> OPEN) \<and>
      (\<forall>k. closers t k = C_Returned \<longrightarrow> worker t = W_Returned))"

section \<open>Concrete connections\<close>

definition exampleConnection :: TCPConnection where
  "exampleConnection =
     \<lparr>state = OPEN, warnings = 0, tcpSocket = 7, remoteIp = (0, 0),
      inQueue = [[1, 2], [3, 4, 5]], inQueueDataSize = 5, outQueue = [[9, 8], [7]]\<rparr>"

definition exampleRecv :: recv_io where
  "exampleRecv = \<lparr>pollResult = 1, revents = 1, bytesRecieved = 2, buffer = [10, 11, 12]\<rparr>"

definition exampleAccept :: "int \<Rightarrow> accept_io" where
  "exampleAccept fd = \<lparr>pollResult = 1, revents = 1, clientSocket = fd, clientIp = (0, 0)\<rparr>"

definition hugeChunk :: chunk where
  "hugeChunk = replicate (2 ^ 31) 0"

section \<open>Properties of the extraction\<close>

lemma popFront_drop: "popFront n q = drop n q"
  by (induction n arbitrary: q) (simp_all add: drop_Suc)

lemma extractLoop_data:
  "extractLoop visited rest data r k = (q', data', r', k') \<Longrightarrow>
     data' = data @ take r (concat rest)"
proof (induction rest arbitrary: visited data r k)
  case Nil
  then show ?case by simp
next
  case (Cons p rest)
  show ?case
  proof (cases "r = 0")
    case True
    with Cons.prems show ?thesis by simp
  next
    case False
    show ?thesis
    proof (cases "length p \<le> r")
      case True
      with False Cons.prems
      have "extractLoop (visited @ [p]) rest (data @ p) (r - length p) (Suc k) = (q', data', r', k')"
        by simp
      from Cons.IH [OF this] True show ?thesis by simp
    next
      case False
      with \<open>r \<noteq> 0\<close> Cons.prems
      have "extractLoop (visited @ [drop r p]) rest (data @ take r p) 0 k = (q', data', r', k')"
        by simp
      from Cons.IH [OF this] False show ?thesis by simp
    qed
  qed
qed

lemma extractLoop_queue:
  "extractLoop visited rest data r k = (q', data', r', k') \<Longrightarrow>
     \<exists>rest'. q' = visited @ rest' \<and> length rest' = length rest \<and> k \<le> k' \<and>
       k' - k \<le> length rest \<and>
       concat (drop (k' - k) rest') = drop r (concat rest)"
proof (induction rest arbitrary: visited data r k)
  case Nil
  then show ?case by simp
next
  case (Cons p rest)
  show ?case
  proof (cases "r = 0")
    case True
    with Cons.prems show ?thesis by auto
  next
    case False
    show ?thesis
    proof (cases "length p \<le> r")
      case True
      with False Cons.prems
      have "extractLoop (visited @ [p]) rest (data @ p) (r - length p) (Suc k) = (q', data', r', k')"
        by simp
      from Cons.IH [OF this] obtain rest' where
        r: "q' = (visited @ [p]) @ rest'" "length rest' = length rest" "Suc k \<le> k'"
          "k' - Suc k \<le> length rest"
          "concat (drop (k' - Suc k) rest') = drop (r - length p) (concat rest)"
        by blast
      from r(3) have e: "k' - k = Suc (k' - Suc k)" by simp
      have "q' = visited @ (p # rest')" using r(1) by simp
      moreover have "length (p # rest') = length (p # rest)" using r(2) by simp
      moreover have "k \<le> k'" using r(3) by simp
      moreover have "k' - k \<le> length (p # rest)" using r(4) e by simp
      moreover have "concat (drop (k' - k) (p # rest')) = drop r (concat (p # rest))"
        using r(5) e True by simp
      ultimately show ?thesis by blast
    next
      case False
      with \<open>r \<noteq> 0\<close> Cons.prems
      have "extractLoop (visited @ [drop r p]) rest (data @ take r p) 0 k = (q', data', r', k')"
        by simp
      moreover have "extractLoop (visited @ [drop r p]) rest (data @ take r p) 0 k
          = ((visited @ [drop r p]) @ rest, data @ take r p, 0, k)"
        by (cases rest) simp_all
      ultimately have q: "q' = visited @ (drop r p # rest)" and k: "k' = k" by simp_all
      have "concat (drop (k' - k) (drop r p # rest)) = drop r (concat (p # rest))"
        using k False by simp
      with q k show ?thesis by force
    qed
  qed
qed

lemma extract_result:
  assumes inv: "inQueueInv c" and pos: "0 < n" and le: "n \<le> inQueueDataSize c"
  shows "\<exists>q'. extractDataFromInQueue n c =
           (take n (queueBytes (inQueue c)),
            c\<lparr>inQueue := q', inQueueDataSize := inQueueDataSize c - n\<rparr>) \<and>
         queueBytes q' = drop n (queueBytes (inQueue c))"
proof -
  obtain q d r k where e: "extractLoop [] (inQueue c) [] n 0 = (q, d, r, k)"
    by (metis prod_cases4)
  from extractLoop_data [OF e] have d: "d = take n (queueBytes (inQueue c))"
    by (simp add: queueBytes_def)
  from extractLoop_queue [OF e] obtain rest' where
    r: "q = rest'" "length rest' = length (inQueue c)" "k \<le> length (inQueue c)"
       "concat (drop k rest') = drop n (concat (inQueue c))"
    by auto
  let ?q' = "if k = length q then [] else popFront k q"
  have "?q' = drop k q" by (simp add: popFront_drop)
  with r have "queueBytes ?q' = drop n (queueBytes (inQueue c))"
    by (simp add: queueBytes_def)
  moreover have "extractDataFromInQueue n c =
      (take n (queueBytes (inQueue c)), c\<lparr>inQueue := ?q', inQueueDataSize := inQueueDataSize c - n\<rparr>)"
    using pos le e d by (simp add: extractDataFromInQueue_def)
  ultimately show ?thesis by blast
qed

section \<open>receiveData(numBytes)\<close>

text \<open>
  Claim C1. On a connection whose counter \<open>inQueueDataSize\<close> is the number of bytes in
  \<open>inQueue\<close>: if \<open>n \<le> inQueueDataSize\<close>, \<open>receiveData n\<close> returns the first \<open>n\<close> bytes
  of the queue in FIFO order, exactly \<open>n\<close> of them, the queue keeps the bytes after them
  and the counter decreases by \<open>n\<close>, no other member changing; if
  \<open>inQueueDataSize < n\<close> it returns the empty vector and leaves the connection as it was;
  and it returns \<open>n\<close> bytes if and only if \<open>n \<le> inQueueDataSize\<close>.
\<close>

theorem receiveData_exact:
  assumes "inQueueInv c"
  shows "(n \<le> inQueueDataSize c \<longrightarrow>
           fst (receiveData n c) = take n (queueBytes (inQueue c)) \<and>
           length (fst (receiveData n c)) = n \<and>
           (\<exists>q'. snd (receiveData n c) = c\<lparr>inQueue := q', inQueueDataSize := inQueueDataSize c - n\<rparr> \<and>
                 queueBytes q' = drop n (queueBytes (inQueue c)))) \<and>
         (inQueueDataSize c < n \<longrightarrow> receiveData n c = ([], c)) \<and>
         (length (fst (receiveData n c)) = n \<longleftrightarrow> n \<le> inQueueDataSize c)"
proof (cases "n = 0")
  case True
  have "c = c\<lparr>inQueue := inQueue c, inQueueDataSize := inQueueDataSize c - 0\<rparr>" by simp
  moreover have "queueBytes (inQueue c) = drop 0 (queueBytes (inQueue c))" by simp
  ultimately have "\<exists>q'. c = c\<lparr>inQueue := q', inQueueDataSize := inQueueDataSize c - 0\<rparr> \<and>
      queueBytes q' = drop 0 (queueBytes (inQueue c))" by blast
  with True show ?thesis
    by (simp add: receiveData_def extractDataFromInQueue_def)
next
  case False
  show ?thesis
  proof (cases "n \<le> inQueueDataSize c")
    case True
    from extract_result [OF assms _ True] False obtain q' where
      q: "extractDataFromInQueue n c =
           (take n (queueBytes (inQueue c)), c\<lparr>inQueue := q', inQueueDataSize := inQueueDataSize c - n\<rparr>)"
         "queueBytes q' = drop n (queueBytes (inQueue c))"
      by auto
    have len: "length (take n (queueBytes (inQueue c))) = n"
      using True assms by (simp add: inQueueInv_def)
    from q len True show ?thesis
      by (auto simp: receiveData_def)
  next
    case False
    with \<open>n \<noteq> 0\<close> show ?thesis by (simp add: receiveData_def)
  qed
qed

theorem receiveData_exact_witness:
  "inQueueInv exampleConnection \<and>
   fst (receiveData 3 exampleConnection) = [1, 2, 3] \<and>
   inQueue (snd (receiveData 3 exampleConnection)) = [[4, 5]] \<and>
   inQueueDataSize (snd (receiveData 3 exampleConnection)) = 2 \<and>
   receiveData 6 exampleConnection = ([], exampleConnection)"
  using receiveData_exact [of exampleConnection 3]
  by (simp add: exampleConnection_def inQueueInv_def queueBytes_def receiveData_def
      extractDataFromInQueue_def)

section \<open>receiveString\<close>

lemma scanPackage_eq:
  "scanPackage d p pos = (pos + length (takeWhile (\<lambda>b. b \<noteq> d) p), d \<in> set p)"
  by (induction p arbitrary: pos) auto

lemma takeWhile_absent: "d \<notin> set p \<Longrightarrow> takeWhile (\<lambda>b. b \<noteq> d) p = p"
  by (induction p) auto

lemma takeWhile_present:
  "d \<in> set bs \<Longrightarrow> length (takeWhile (\<lambda>b. b \<noteq> d) bs) < length bs"
  by (induction bs) auto

lemma scanQueue_found: "scanQueue d q pos True = (pos, True)"
  by (cases q) simp_all

lemma scanQueue_eq:
  "scanQueue d q pos False =
     (pos + length (takeWhile (\<lambda>b. b \<noteq> d) (concat q)), d \<in> set (concat q))"
proof (induction q arbitrary: pos)
  case Nil
  then show ?case by simp
next
  case (Cons p q)
  show ?case
  proof (cases "d \<in> set p")
    case True
    then have "takeWhile (\<lambda>b. b \<noteq> d) (p @ concat q) = takeWhile (\<lambda>b. b \<noteq> d) p"
      by (intro takeWhile_append1 [of d]) auto
    with True show ?thesis by (simp add: scanPackage_eq scanQueue_found)
  next
    case False
    then have "takeWhile (\<lambda>b. b \<noteq> d) (p @ concat q) = p @ takeWhile (\<lambda>b. b \<noteq> d) (concat q)"
      by (intro takeWhile_append2) auto
    then show ?thesis using False by (simp add: scanPackage_eq Cons.IH takeWhile_absent)
  qed
qed

lemma first_index:
  assumes "p < length bs" "bs ! p = d" "\<forall>i<p. bs ! i \<noteq> d"
  shows "length (takeWhile (\<lambda>b. b \<noteq> d) bs) = p"
proof -
  have "takeWhile (\<lambda>b. b \<noteq> d) bs = take p bs"
    using assms by (intro takeWhile_eq_take_P_nth) auto
  with assms(1) show ?thesis by simp
qed

text \<open>
  Claim C2. On a connection whose counter \<open>inQueueDataSize\<close> is the number of bytes in
  \<open>inQueue\<close>: \<open>receiveString d\<close> returns a non-empty string if and only if a byte
  equal to \<open>d\<close> is in the queue; when the first such byte is at index \<open>p\<close> of the
  queue's bytes in FIFO order, the string is the bytes \<open>0..p\<close>, it ends with \<open>d\<close> and has
  no other \<open>d\<close>, and exactly these \<open>p + 1\<close> bytes leave the queue; when no byte equals
  \<open>d\<close>, the string is empty and the connection is as it was.
\<close>

theorem receiveString_delimited:
  assumes "inQueueInv c"
  shows "(fst (receiveString d c) \<noteq> [] \<longleftrightarrow> d \<in> set (queueBytes (inQueue c))) \<and>
         (\<forall>p. p < length (queueBytes (inQueue c)) \<and> queueBytes (inQueue c) ! p = d \<and>
               (\<forall>i<p. queueBytes (inQueue c) ! i \<noteq> d) \<longrightarrow>
            fst (receiveString d c) = take (Suc p) (queueBytes (inQueue c)) \<and>
            length (fst (receiveString d c)) = Suc p \<and>
            last (fst (receiveString d c)) = d \<and>
            d \<notin> set (butlast (fst (receiveString d c))) \<and>
            (\<exists>q'. snd (receiveString d c) =
                    c\<lparr>inQueue := q', inQueueDataSize := inQueueDataSize c - Suc p\<rparr> \<and>
                  queueBytes q' = drop (Suc p) (queueBytes (inQueue c)))) \<and>
         (d \<notin> set (queueBytes (inQueue c)) \<longrightarrow> receiveString d c = ([], c))"
proof -
  let ?bs = "queueBytes (inQueue c)"
  let ?p = "length (takeWhile (\<lambda>b. b \<noteq> d) ?bs)"
  have scan: "scanQueue d (inQueue c) 0 False = (?p, d \<in> set ?bs)"
    by (simp add: scanQueue_eq queueBytes_def)
  have size: "inQueueDataSize c = length ?bs"
    using assms by (simp add: inQueueInv_def)
  have absent: "receiveString d c = ([], c)" if "d \<notin> set ?bs"
    using that scan by (simp add: receiveString_def)
  have present: "fst (receiveString d c) = take (Suc ?p) ?bs \<and>
      (\<exists>q'. snd (receiveString d c) = c\<lparr>inQueue := q', inQueueDataSize := inQueueDataSize c - Suc ?p\<rparr> \<and>
         queueBytes q' = drop (Suc ?p) ?bs) \<and> ?p < length ?bs" if "d \<in> set ?bs"
  proof -
    from that have lt: "?p < length ?bs"
      by (rule takeWhile_present)
    then have le: "Suc ?p \<le> inQueueDataSize c" using size by simp
    from extract_result [OF assms _ le] obtain q' where
      q: "extractDataFromInQueue (Suc ?p) c =
           (take (Suc ?p) ?bs, c\<lparr>inQueue := q', inQueueDataSize := inQueueDataSize c - Suc ?p\<rparr>)"
         "queueBytes q' = drop (Suc ?p) ?bs"
      by auto
    from lt have ne: "take (Suc ?p) ?bs \<noteq> []" by auto
    from lt size have "inQueueDataSize c \<noteq> 0" by (cases "queueBytes (inQueue c)") simp_all
    with that scan q ne lt show ?thesis by (auto simp: receiveString_def)
  qed
  have c1: "fst (receiveString d c) \<noteq> [] \<longleftrightarrow> d \<in> set ?bs"
  proof (cases "d \<in> set ?bs")
    case True
    from present [OF True] have "fst (receiveString d c) = take (Suc ?p) ?bs" "?p < length ?bs"
      by simp_all
    then have "fst (receiveString d c) \<noteq> []" by auto
    with True show ?thesis by simp
  next
    case False
    with absent show ?thesis by simp
  qed
  have c2: "fst (receiveString d c) = take (Suc p) ?bs \<and>
            length (fst (receiveString d c)) = Suc p \<and>
            last (fst (receiveString d c)) = d \<and>
            d \<notin> set (butlast (fst (receiveString d c))) \<and>
            (\<exists>q'. snd (receiveString d c) =
                    c\<lparr>inQueue := q', inQueueDataSize := inQueueDataSize c - Suc p\<rparr> \<and>
                  queueBytes q' = drop (Suc p) ?bs)"
    if p: "p < length ?bs" "?bs ! p = d" "\<forall>i<p. ?bs ! i \<noteq> d" for p
  proof -
    from p have mem: "d \<in> set ?bs" by (metis nth_mem)
    from first_index [OF p] have eq: "?p = p" .
    from present [OF mem] eq have r: "fst (receiveString d c) = take (Suc p) ?bs"
      and q: "\<exists>q'. snd (receiveString d c) =
                    c\<lparr>inQueue := q', inQueueDataSize := inQueueDataSize c - Suc p\<rparr> \<and>
                  queueBytes q' = drop (Suc p) ?bs"
      by simp_all
    have t: "take (Suc p) ?bs = take p ?bs @ [d]"
      using p(1,2) by (simp add: take_Suc_conv_app_nth)
    have "d \<notin> set (take p ?bs)"
      using p(1,3) by (auto simp: in_set_conv_nth)
    with r t q p(1) show ?thesis by simp
  qed
  from c1 c2 absent show ?thesis by blast
qed

theorem receiveString_delimited_witness:
  "inQueueInv exampleConnection \<and>
   queueBytes (inQueue exampleConnection) ! 3 = 4 \<and>
   receiveString 4 exampleConnection =
     ([1, 2, 3, 4], exampleConnection\<lparr>inQueue := [[5]], inQueueDataSize := 1\<rparr>) \<and>
   receiveString 6 exampleConnection = ([], exampleConnection)"
  using receiveString_delimited [of exampleConnection 4]
  by (simp add: exampleConnection_def inQueueInv_def queueBytes_def receiveString_def
      extractDataFromInQueue_def)

section \<open>The counter of the in-queue\<close>

lemma extractLoop_zero:
  "extractLoop visited rest data 0 k = (visited @ rest, data, 0, k)"
  by (cases rest) simp_all

lemma extractLoop_shape:
  "extractLoop visited rest data r k = (q', data', r', k') \<Longrightarrow>
     \<exists>j. j \<le> length rest \<and> k' = k + j \<and>
       ((data' = data @ concat (take j rest) \<and> q' = visited @ rest) \<or>
        (j < length rest \<and>
         (\<exists>m. 0 < m \<and> m < length (rest ! j) \<and>
            data' = data @ concat (take j rest) @ take m (rest ! j) \<and>
            q' = visited @ take j rest @ drop m (rest ! j) # drop (Suc j) rest)))"
proof (induction rest arbitrary: visited data r k)
  case Nil
  then show ?case by simp
next
  case (Cons p rest)
  show ?case
  proof (cases "r = 0")
    case True
    with Cons.prems have "data' = data \<and> q' = visited @ p # rest \<and> k' = k" by auto
    then show ?thesis by (intro exI [of _ 0]) simp
  next
    case False
    show ?thesis
    proof (cases "length p \<le> r")
      case True
      with False Cons.prems
      have "extractLoop (visited @ [p]) rest (data @ p) (r - length p) (Suc k) = (q', data', r', k')"
        by simp
      from Cons.IH [OF this] obtain j where
        j: "j \<le> length rest" "k' = Suc k + j"
          "(data' = (data @ p) @ concat (take j rest) \<and> q' = (visited @ [p]) @ rest) \<or>
           (j < length rest \<and>
            (\<exists>m. 0 < m \<and> m < length (rest ! j) \<and>
               data' = (data @ p) @ concat (take j rest) @ take m (rest ! j) \<and>
               q' = (visited @ [p]) @ take j rest @ drop m (rest ! j) # drop (Suc j) rest))"
        by blast
      show ?thesis
        using j by (intro exI [of _ "Suc j"]) auto
    next
      case False
      with \<open>r \<noteq> 0\<close> Cons.prems
      have "extractLoop (visited @ [drop r p]) rest (data @ take r p) 0 k = (q', data', r', k')"
        by simp
      then have "q' = visited @ drop r p # rest" "data' = data @ take r p" "k' = k"
        by (simp_all add: extractLoop_zero)
      with False \<open>r \<noteq> 0\<close> show ?thesis
        by (intro exI [of _ 0]) auto
    qed
  qed
qed

lemma extract_shape:
  assumes pos: "0 < n" and le: "n \<le> inQueueDataSize c"
  shows "\<exists>j. j \<le> length (inQueue c) \<and>
     ((fst (extractDataFromInQueue n c) = concat (take j (inQueue c)) \<and>
       inQueue (snd (extractDataFromInQueue n c)) = drop j (inQueue c)) \<or>
      (j < length (inQueue c) \<and>
       (\<exists>m. 0 < m \<and> m < length (inQueue c ! j) \<and>
          fst (extractDataFromInQueue n c) = concat (take j (inQueue c)) @ take m (inQueue c ! j) \<and>
          inQueue (snd (extractDataFromInQueue n c)) =
            drop m (inQueue c ! j) # drop (Suc j) (inQueue c))))"
proof -
  obtain q d r k where e: "extractLoop [] (inQueue c) [] n 0 = (q, d, r, k)"
    by (metis prod_cases4)
  have x: "fst (extractDataFromInQueue n c) = d"
    "inQueue (snd (extractDataFromInQueue n c)) = drop k q"
    using pos le e by (simp_all add: extractDataFromInQueue_def popFront_drop)
  from extractLoop_shape [OF e] obtain j where
    j: "j \<le> length (inQueue c)" "k = j"
      "(d = concat (take j (inQueue c)) \<and> q = inQueue c) \<or>
       (j < length (inQueue c) \<and>
         (\<exists>m. 0 < m \<and> m < length (inQueue c ! j) \<and>
            d = concat (take j (inQueue c)) @ take m (inQueue c ! j) \<and>
            q = take j (inQueue c) @ drop m (inQueue c ! j) # drop (Suc j) (inQueue c)))"
    by auto
  from j(3) show ?thesis
  proof
    assume "d = concat (take j (inQueue c)) \<and> q = inQueue c"
    with x j(1,2) show ?thesis by (intro exI [of _ j]) simp
  next
    assume b: "j < length (inQueue c) \<and>
         (\<exists>m. 0 < m \<and> m < length (inQueue c ! j) \<and>
            d = concat (take j (inQueue c)) @ take m (inQueue c ! j) \<and>
            q = take j (inQueue c) @ drop m (inQueue c ! j) # drop (Suc j) (inQueue c))"
    then obtain m where m: "0 < m" "m < length (inQueue c ! j)"
      "d = concat (take j (inQueue c)) @ take m (inQueue c ! j)"
      "q = take j (inQueue c) @ drop m (inQueue c ! j) # drop (Suc j) (inQueue c)"
      by blast
    from b have "length (take j (inQueue c)) = j" by simp
    then have "drop j q = drop m (inQueue c ! j) # drop (Suc j) (inQueue c)"
      using m(4) by (metis append_eq_conv_conj)
    with x j(2) m(1,2,3) b show ?thesis by (intro exI [of _ j]) auto
  qed
qed

lemma inv_extract:
  assumes "inQueueInv c"
  shows "inQueueInv (snd (extractDataFromInQueue n c))"
proof (cases "0 < n \<and> n \<le> inQueueDataSize c")
  case True
  from extract_result [OF assms] True obtain q' where
    "extractDataFromInQueue n c =
       (take n (queueBytes (inQueue c)), c\<lparr>inQueue := q', inQueueDataSize := inQueueDataSize c - n\<rparr>)"
    "queueBytes q' = drop n (queueBytes (inQueue c))"
    by blast
  with assms show ?thesis by (simp add: inQueueInv_def)
next
  case False
  with assms show ?thesis by (auto simp: extractDataFromInQueue_def)
qed

lemma inv_receiveDataAll: "inQueueInv c \<Longrightarrow> inQueueInv (snd (receiveDataAll c))"
  by (simp add: receiveDataAll_def inv_extract)

lemma inv_receiveData: "inQueueInv c \<Longrightarrow> inQueueInv (snd (receiveData n c))"
  by (simp add: receiveData_def inv_extract)

lemma inv_receiveString: "inQueueInv c \<Longrightarrow> inQueueInv (snd (receiveString d c))"
  using inv_extract [of c]
  by (auto simp: receiveString_def split: prod.splits) (metis snd_conv)

lemma inv_sendData: "inQueueInv c \<Longrightarrow> inQueueInv (snd (sendData data c))"
  by (simp add: sendData_def inQueueInv_def)

lemma sendLoop_posix_inQueue:
  "inQueue (sendLoop_posix send k q c) = inQueue c \<and>
   inQueueDataSize (sendLoop_posix send k q c) = inQueueDataSize c"
  by (induction q arbitrary: k) (simp_all add: setState_def WARN_def)

lemma sendLoop_sdl_inQueue:
  "inQueue (sendLoop_sdl send k q c) = inQueue c \<and>
   inQueueDataSize (sendLoop_sdl send k q c) = inQueueDataSize c"
  by (induction q arbitrary: k) (simp_all add: setState_def)

lemma inv_drain_posix: "inQueueInv c \<Longrightarrow> inQueueInv (drainOutQueue_posix send c)"
  by (simp add: inQueueInv_def drainOutQueue_posix_def sendLoop_posix_inQueue)

lemma inv_drain_sdl: "inQueueInv c \<Longrightarrow> inQueueInv (drainOutQueue_sdl send c)"
  by (simp add: inQueueInv_def drainOutQueue_sdl_def sendLoop_sdl_inQueue)

lemma inv_appendReceived:
  "inQueueInv c \<Longrightarrow> recvContract io \<Longrightarrow> 0 < bytesRecieved io \<Longrightarrow> inQueueInv (appendReceived io c)"
  by (simp add: inQueueInv_def appendReceived_def recvContract_def queueBytes_def)

lemma inv_receiveLoop_posix:
  "inQueueInv c \<Longrightarrow> list_all recvContract ios \<Longrightarrow> inQueueInv (receiveLoop_posix ios c)"
proof (induction ios arbitrary: c)
  case Nil
  then show ?case by simp
next
  case (Cons io ios)
  have s: "inQueueInv (setState CLOSING c)" "inQueueInv (setState CLOSING (WARN c))"
    using Cons.prems(1) by (simp_all add: inQueueInv_def setState_def WARN_def)
  show ?case
  proof (cases "isOpen c \<and> 0 < pollResult io \<and> revents io = POLLIN \<and> 0 < bytesRecieved io")
    case True
    with Cons.prems have "inQueueInv (appendReceived io c)"
      by (simp add: inv_appendReceived)
    from Cons.IH [OF this] Cons.prems(2) True show ?thesis by simp
  next
    case False
    with s Cons.prems(1) show ?thesis by auto
  qed
qed

lemma inv_receiveLoop_sdl:
  "inQueueInv c \<Longrightarrow> list_all recvContract ios \<Longrightarrow> inQueueInv (receiveLoop_sdl ios c)"
proof (induction ios arbitrary: c)
  case Nil
  then show ?case by simp
next
  case (Cons io ios)
  have s: "inQueueInv (setState CLOSING c)" "inQueueInv (WARN (setState CLOSING c))"
    using Cons.prems(1) by (simp_all add: inQueueInv_def setState_def WARN_def)
  show ?case
  proof (cases "isOpen c \<and> 0 < pollResult io \<and> 0 < bytesRecieved io")
    case True
    with Cons.prems have "inQueueInv (appendReceived io c)"
      by (simp add: inv_appendReceived)
    from Cons.IH [OF this] Cons.prems(2) True show ?thesis by (simp add: mayBeOpen_def isOpen_def)
  next
    case False
    with s Cons.prems(1) show ?thesis by (auto simp: mayBeOpen_def isOpen_def)
  qed
qed

lemma inv_applyOp: "inQueueInv c \<Longrightarrow> opContract op \<Longrightarrow> inQueueInv (applyOp op c)"
  by (cases op)
    (simp_all add: inv_receiveDataAll inv_receiveData inv_receiveString inv_sendData
      sendString_def tick_posix_def tick_sdl_def inv_receiveLoop_posix inv_receiveLoop_sdl
      inv_drain_posix inv_drain_sdl)

lemma inv_applyOps:
  "inQueueInv c \<Longrightarrow> list_all opContract ops \<Longrightarrow> inQueueInv (applyOps ops c)"
  by (induction ops arbitrary: c) (simp_all add: inv_applyOp)

lemma inv_new: "inQueueInv (newTCPConnection socket address)"
  by (simp add: inQueueInv_def newTCPConnection_def queueBytes_def)


text \<open>
  Claim C3. The counter \<open>inQueueDataSize\<close> is the sum of the lengths of the chunks of
  \<open>inQueue\<close>: this holds for a new connection, every operation on a connection keeps it
  (the calls of the public interface and a pass of the worker's loop on either backend,
  \<open>recv\<close> returning at most the size of its buffer), so it holds after any sequence
  of operations. An extraction of \<open>n\<close> bytes, \<open>0 < n \<le> inQueueDataSize\<close>, takes the
  first \<open>j\<close> chunks whole, in order, and removes them, and of the next chunk it takes
  either nothing or a proper prefix whose suffix replaces the chunk; the counter
  decreases by the number of bytes returned. The worker's append of \<open>k > 0\<close> received
  bytes adds one chunk of \<open>k\<close> bytes at the back and increases the counter by \<open>k\<close>.
\<close>

theorem inQueueDataSize_invariant:
  "inQueueInv (newTCPConnection socket address) \<and>
   (inQueueInv c \<and> opContract op \<longrightarrow> inQueueInv (applyOp op c)) \<and>
   (list_all opContract ops \<longrightarrow> inQueueInv (applyOps ops (newTCPConnection socket address))) \<and>
   (inQueueInv c \<and> 0 < n \<and> n \<le> inQueueDataSize c \<longrightarrow>
      (\<exists>j. j \<le> length (inQueue c) \<and>
         ((fst (extractDataFromInQueue n c) = concat (take j (inQueue c)) \<and>
           inQueue (snd (extractDataFromInQueue n c)) = drop j (inQueue c)) \<or>
          (j < length (inQueue c) \<and>
           (\<exists>m. 0 < m \<and> m < length (inQueue c ! j) \<and>
              fst (extractDataFromInQueue n c) =
                concat (take j (inQueue c)) @ take m (inQueue c ! j) \<and>
              inQueue (snd (extractDataFromInQueue n c)) =
                drop m (inQueue c ! j) # drop (Suc j) (inQueue c))))) \<and>
      length (fst (extractDataFromInQueue n c)) = n \<and>
      inQueueDataSize (snd (extractDataFromInQueue n c)) =
        inQueueDataSize c - length (fst (extractDataFromInQueue n c))) \<and>
   (0 < bytesRecieved io \<and> recvContract io \<longrightarrow>
      (\<exists>chunk. length chunk = nat (bytesRecieved io) \<and>
         inQueue (appendReceived io c) = inQueue c @ [chunk]) \<and>
      inQueueDataSize (appendReceived io c) = inQueueDataSize c + nat (bytesRecieved io)) \<and>
   (isOpen c \<and> 0 < pollResult io \<and> revents io = POLLIN \<and> 0 < bytesRecieved io \<longrightarrow>
      receiveLoop_posix [io] c = appendReceived io c) \<and>
   (isOpen c \<and> 0 < pollResult io \<and> 0 < bytesRecieved io \<longrightarrow>
      receiveLoop_sdl [io] c = appendReceived io c)"
proof -
  have a: "list_all opContract ops \<longrightarrow> inQueueInv (applyOps ops (newTCPConnection socket address))"
    by (simp add: inv_applyOps inv_new)
  have b: "inQueueInv c \<and> 0 < n \<and> n \<le> inQueueDataSize c \<longrightarrow>
      (\<exists>j. j \<le> length (inQueue c) \<and>
         ((fst (extractDataFromInQueue n c) = concat (take j (inQueue c)) \<and>
           inQueue (snd (extractDataFromInQueue n c)) = drop j (inQueue c)) \<or>
          (j < length (inQueue c) \<and>
           (\<exists>m. 0 < m \<and> m < length (inQueue c ! j) \<and>
              fst (extractDataFromInQueue n c) =
                concat (take j (inQueue c)) @ take m (inQueue c ! j) \<and>
              inQueue (snd (extractDataFromInQueue n c)) =
                drop m (inQueue c ! j) # drop (Suc j) (inQueue c))))) \<and>
      length (fst (extractDataFromInQueue n c)) = n \<and>
      inQueueDataSize (snd (extractDataFromInQueue n c)) =
        inQueueDataSize c - length (fst (extractDataFromInQueue n c))"
  proof
    assume h: "inQueueInv c \<and> 0 < n \<and> n \<le> inQueueDataSize c"
    then have inv: "inQueueInv c" and pos: "0 < n" and le: "n \<le> inQueueDataSize c"
      by simp_all
    from extract_result [OF inv pos le] obtain q' where
      q: "extractDataFromInQueue n c =
         (take n (queueBytes (inQueue c)), c\<lparr>inQueue := q', inQueueDataSize := inQueueDataSize c - n\<rparr>)"
      by blast
    have len: "length (fst (extractDataFromInQueue n c)) = n"
      using q le inv by (simp add: inQueueInv_def)
    moreover have "inQueueDataSize (snd (extractDataFromInQueue n c)) = inQueueDataSize c - n"
      using q by simp
    ultimately show "(\<exists>j. j \<le> length (inQueue c) \<and>
         ((fst (extractDataFromInQueue n c) = concat (take j (inQueue c)) \<and>
           inQueue (snd (extractDataFromInQueue n c)) = drop j (inQueue c)) \<or>
          (j < length (inQueue c) \<and>
           (\<exists>m. 0 < m \<and> m < length (inQueue c ! j) \<and>
              fst (extractDataFromInQueue n c) =
                concat (take j (inQueue c)) @ take m (inQueue c ! j) \<and>
              inQueue (snd (extractDataFromInQueue n c)) =
                drop m (inQueue c ! j) # drop (Suc j) (inQueue c))))) \<and>
      length (fst (extractDataFromInQueue n c)) = n \<and>
      inQueueDataSize (snd (extractDataFromInQueue n c)) =
        inQueueDataSize c - length (fst (extractDataFromInQueue n c))"
      using extract_shape [OF pos le] by simp
  qed
  have d: "0 < bytesRecieved io \<and> recvContract io \<longrightarrow>
      (\<exists>chunk. length chunk = nat (bytesRecieved io) \<and>
         inQueue (appendReceived io c) = inQueue c @ [chunk]) \<and>
      inQueueDataSize (appendReceived io c) = inQueueDataSize c + nat (bytesRecieved io)"
    by (auto simp: appendReceived_def recvContract_def)
  have e: "isOpen c \<and> 0 < pollResult io \<and> revents io = POLLIN \<and> 0 < bytesRecieved io \<longrightarrow>
      receiveLoop_posix [io] c = appendReceived io c"
    by simp
  have f: "isOpen c \<and> 0 < pollResult io \<and> 0 < bytesRecieved io \<longrightarrow>
      receiveLoop_sdl [io] c = appendReceived io c"
    by (simp add: mayBeOpen_def isOpen_def)
  from a b d e f show ?thesis
    by (simp add: inv_new inv_applyOp)
qed

theorem inQueueDataSize_invariant_witness:
  "inQueueInv exampleConnection \<and> opContract (TickPosix (\<lambda>k. 2) [exampleRecv]) \<and>
   inQueueInv (applyOp (TickPosix (\<lambda>k. 2) [exampleRecv]) exampleConnection) \<and>
   inQueue (applyOp (TickPosix (\<lambda>k. 2) [exampleRecv]) exampleConnection) =
     [[1, 2], [3, 4, 5], [10, 11]] \<and>
   inQueueDataSize (applyOp (TickPosix (\<lambda>k. 2) [exampleRecv]) exampleConnection) = 7 \<and>
   list_all opContract [TickPosix (\<lambda>k. 2) [exampleRecv], Receive 1] \<and>
   inQueueInv (applyOps [TickPosix (\<lambda>k. 2) [exampleRecv], Receive 1] (newTCPConnection 7 (0, 0))) \<and>
   fst (extractDataFromInQueue 3 exampleConnection) = [1, 2, 3] \<and>
   inQueue (snd (extractDataFromInQueue 3 exampleConnection)) = [[4, 5]] \<and>
   inQueueDataSize (snd (extractDataFromInQueue 3 exampleConnection)) = 2 \<and>
   0 < bytesRecieved exampleRecv \<and> recvContract exampleRecv \<and>
   isOpen exampleConnection \<and> 0 < pollResult exampleRecv \<and> revents exampleRecv = POLLIN \<and>
   receiveLoop_posix [exampleRecv] exampleConnection = appendReceived exampleRecv exampleConnection"
  using inQueueDataSize_invariant [of 7 "(0, 0)" exampleConnection "TickPosix (\<lambda>k. 2) [exampleRecv]"
      "[TickPosix (\<lambda>k. 2) [exampleRecv], Receive 1]" 3 exampleRecv]
  by (simp add: exampleConnection_def exampleRecv_def inQueueInv_def queueBytes_def
      recvContract_def tick_posix_def drainOutQueue_posix_def int_of_size_def POLLIN_def
      isOpen_def appendReceived_def extractDataFromInQueue_def newTCPConnection_def
      receiveData_def setState_def WARN_def)

section \<open>sendData and sendString\<close>

text \<open>
  Claim C7. When the state of the connection is \<open>OPEN\<close>, \<open>sendData\<close> returns true and
  appends the payload to \<open>outQueue\<close> as one chunk, at the back, and changes nothing else;
  in any other state it returns false and the connection is as it was. \<open>sendString\<close>
  does what \<open>sendData\<close> does on the bytes of the string.
\<close>

theorem sendData_only_when_open:
  "(state c = OPEN \<longrightarrow>
      sendData payload c = (True, c\<lparr>outQueue := outQueue c @ [payload]\<rparr>)) \<and>
   (state c \<noteq> OPEN \<longrightarrow> sendData payload c = (False, c)) \<and>
   sendString payload c = sendData payload c"
  by (simp add: sendData_def sendString_def isOpen_def)

theorem sendData_only_when_open_witness:
  "state exampleConnection = OPEN \<and>
   sendData [5, 6] exampleConnection =
     (True, exampleConnection\<lparr>outQueue := [[9, 8], [7], [5, 6]]\<rparr>) \<and>
   state (setState CLOSING exampleConnection) \<noteq> OPEN \<and>
   sendData [5, 6] (setState CLOSING exampleConnection) =
     (False, setState CLOSING exampleConnection) \<and>
   sendString [5, 6] exampleConnection = sendData [5, 6] exampleConnection"
  using sendData_only_when_open [of exampleConnection "[5, 6]"]
    sendData_only_when_open [of "setState CLOSING exampleConnection" "[5, 6]"]
  by (simp add: exampleConnection_def setState_def)

section \<open>The server's queue of new connections\<close>

lemma serverPass_posix_queue:
  "newConnectionsQueue (serverPass_posix io s) = newConnectionsQueue s @ accepted_posix io s"
  by (simp add: serverPass_posix_def accepted_posix_def connectionOf_def isOpen_def
      setState_def WARN_def)

lemma serverPass_sdl_queue:
  "newConnectionsQueue (serverPass_sdl io s) = newConnectionsQueue s @ accepted_sdl io s"
  by (simp add: serverPass_sdl_def accepted_sdl_def connectionOf_def isOpen_def)

lemma serverHistory_fifo:
  "serverHistory es s = (accepted, returned, s') \<Longrightarrow>
     subseq returned (newConnectionsQueue s @ accepted) \<and>
     (ClosePending \<notin> set es \<longrightarrow>
        newConnectionsQueue s @ accepted = returned @ newConnectionsQueue s')"
proof (induction es arbitrary: s accepted returned s')
  case Nil
  then show ?case by simp
next
  case (Cons e es)
  show ?case
  proof (cases e)
    case (WorkerPass io)
    obtain a r where h: "serverHistory es (serverPass_posix io s) = (a, r, s')"
      and acc: "accepted = accepted_posix io s @ a"
      and ret: "returned = r"
      using Cons.prems WorkerPass by (auto split: prod.splits)
    have "newConnectionsQueue s @ accepted = newConnectionsQueue (serverPass_posix io s) @ a"
      using acc by (simp add: serverPass_posix_queue)
    with Cons.IH [OF h] ret WorkerPass show ?thesis by simp
  next
    case (WorkerPassSDL io)
    obtain a r where h: "serverHistory es (serverPass_sdl io s) = (a, r, s')"
      and acc: "accepted = accepted_sdl io s @ a"
      and ret: "returned = r"
      using Cons.prems WorkerPassSDL by (auto split: prod.splits)
    have "newConnectionsQueue s @ accepted = newConnectionsQueue (serverPass_sdl io s) @ a"
      using acc by (simp add: serverPass_sdl_queue)
    with Cons.IH [OF h] ret WorkerPassSDL show ?thesis by simp
  next
    case GetIncoming
    show ?thesis
    proof (cases "newConnectionsQueue s")
      case Nil
      with Cons.prems GetIncoming obtain r where
        h: "serverHistory es s = (accepted, r, s')" and ret: "returned = r"
        by (auto simp: getIncomingConnection_def split: prod.splits)
      with Cons.IH [OF h] GetIncoming show ?thesis by simp
    next
      case (Cons c q)
      with Cons.prems GetIncoming obtain r where
        h: "serverHistory es (s\<lparr>newConnectionsQueue := q\<rparr>) = (accepted, r, s')"
        and ret: "returned = c # r"
        by (auto simp: getIncomingConnection_def split: prod.splits)
      from Cons.IH [OF h] ret Cons GetIncoming show ?thesis by simp
    qed
  next
    case ClosePending
    with Cons.prems have h: "serverHistory es (closePending s) = (accepted, returned, s')"
      by simp
    from Cons.IH [OF h] have "subseq returned accepted"
      by (simp add: closePending_def)
    then have "subseq returned (newConnectionsQueue s @ accepted)"
      by (rule subseq_order.trans) (rule suffix_imp_subseq, rule suffix_appendI, simp)
    with ClosePending show ?thesis by simp
  qed
qed

lemma history_of_gets:
  "serverHistory (replicate (length (newConnectionsQueue s)) GetIncoming) s =
     ([], newConnectionsQueue s, s\<lparr>newConnectionsQueue := []\<rparr>)"
proof (induction "newConnectionsQueue s" arbitrary: s)
  case Nil
  then have "s\<lparr>newConnectionsQueue := []\<rparr> = s" by simp
  with Nil [symmetric] show ?case by simp
next
  case (Cons c q)
  let ?s1 = "s\<lparr>newConnectionsQueue := q\<rparr>"
  have q: "q = newConnectionsQueue ?s1" by simp
  from Cons.hyps(1) [OF q]
  have "serverHistory (replicate (length q) GetIncoming) ?s1 = ([], q, s\<lparr>newConnectionsQueue := []\<rparr>)"
    by simp
  with Cons.hyps(2) [symmetric] show ?case
    by (simp add: getIncomingConnection_def)
qed

lemma history_of_posix_passes:
  assumes "state s = OPEN" "list_all (\<lambda>io. 0 < pollResult io \<and> revents io = POLLIN) ios"
  shows "serverHistory (map WorkerPass ios @ es) s =
     (case serverHistory es
             (s\<lparr>newConnectionsQueue := newConnectionsQueue s @ map connectionOf ios\<rparr>) of
        (accepted, returned, s') \<Rightarrow> (map connectionOf ios @ accepted, returned, s'))"
  using assms
proof (induction ios arbitrary: s)
  case Nil
  then show ?case by simp
next
  case (Cons io ios)
  let ?s1 = "s\<lparr>newConnectionsQueue := newConnectionsQueue s @ [connectionOf io]\<rparr>"
  from Cons.prems have p: "serverPass_posix io s = ?s1" "accepted_posix io s = [connectionOf io]"
    by (simp_all add: serverPass_posix_def accepted_posix_def connectionOf_def isOpen_def)
  have "state ?s1 = OPEN" using Cons.prems(1) by simp
  from Cons.IH [OF this] Cons.prems(2) p show ?case
    by (simp split: prod.splits)
qed

lemma history_of_sdl_passes:
  assumes "state s = OPEN" "list_all (\<lambda>io. clientSocket io \<noteq> 0) ios"
  shows "serverHistory (map WorkerPassSDL ios @ es) s =
     (case serverHistory es
             (s\<lparr>newConnectionsQueue := newConnectionsQueue s @ map connectionOf ios\<rparr>) of
        (accepted, returned, s') \<Rightarrow> (map connectionOf ios @ accepted, returned, s'))"
  using assms
proof (induction ios arbitrary: s)
  case Nil
  then show ?case by simp
next
  case (Cons io ios)
  let ?s1 = "s\<lparr>newConnectionsQueue := newConnectionsQueue s @ [connectionOf io]\<rparr>"
  from Cons.prems have p: "serverPass_sdl io s = ?s1" "accepted_sdl io s = [connectionOf io]"
    by (simp_all add: serverPass_sdl_def accepted_sdl_def connectionOf_def isOpen_def)
  have "state ?s1 = OPEN" using Cons.prems(1) by simp
  from Cons.IH [OF this] Cons.prems(2) p show ?case
    by (simp split: prod.splits)
qed

lemma accepted_then_returned:
  assumes "serverHistory (passes @ es) (newTCPServer socket) =
     (case serverHistory es ((newTCPServer socket)\<lparr>newConnectionsQueue := [] @ cs\<rparr>) of
        (accepted, returned, s') \<Rightarrow> (cs @ accepted, returned, s'))"
    and "es = replicate (length cs) GetIncoming"
  shows "serverHistory (passes @ es) (newTCPServer socket) = (cs, cs, newTCPServer socket)"
proof -
  let ?s = "(newTCPServer socket)\<lparr>newConnectionsQueue := cs\<rparr>"
  have "serverHistory (replicate (length (newConnectionsQueue ?s)) GetIncoming) ?s =
      ([], newConnectionsQueue ?s, ?s\<lparr>newConnectionsQueue := []\<rparr>)"
    by (rule history_of_gets)
  then have "serverHistory es ?s = ([], cs, newTCPServer socket)"
    using assms(2) by (simp add: newTCPServer_def)
  with assms(1) show ?thesis by simp
qed

text \<open>
  Claim C9. \<open>getIncomingConnection\<close> returns at once: nothing, leaving the server as it
  was, when \<open>newConnectionsQueue\<close> is empty, and otherwise the connection at the front,
  which it removes. A pass of the worker appends at the back exactly the connection it
  accepts: on the POSIX backend the connection built on what \<open>accept\<close> returned, when
  the server is open and \<open>poll\<close> reported the socket readable, and nothing otherwise;
  on the SDL backend the connection built on the handle \<open>SDLNet_TCP_Accept\<close>
  returned, when the server is open and the handle is not 0, and nothing otherwise. So in
  every history of worker passes, calls of \<open>getIncomingConnection\<close> and closings of the
  pending connections, the connections returned are, in the same order, among the pending
  and accepted ones; in a history that never closes the pending connections, the returned
  connections followed by the connections still pending are the connections pending at
  the start followed by the connections accepted, in the order of their acceptance; and
  when a new server accepts on the results \<open>ios\<close> and \<open>getIncomingConnection\<close> is then
  called once for each, the calls return the connections built on \<open>ios\<close>, in that order.
\<close>

theorem getIncomingConnection_fifo:
  "(newConnectionsQueue s = [] \<longrightarrow> getIncomingConnection s = (None, s)) \<and>
   (\<forall>c q. newConnectionsQueue s = c # q \<longrightarrow>
      getIncomingConnection s = (Some c, s\<lparr>newConnectionsQueue := q\<rparr>)) \<and>
   newConnectionsQueue (serverPass_posix io s) =
     newConnectionsQueue s @
       (if state s = OPEN \<and> 0 < pollResult io \<and> revents io = POLLIN
        then [newTCPConnection (clientSocket io) (clientIp io)] else []) \<and>
   newConnectionsQueue (serverPass_sdl io s) =
     newConnectionsQueue s @
       (if state s = OPEN \<and> clientSocket io \<noteq> 0
        then [newTCPConnection (clientSocket io) (clientIp io)] else []) \<and>
   accepted_posix io s =
     (if state s = OPEN \<and> 0 < pollResult io \<and> revents io = POLLIN
      then [newTCPConnection (clientSocket io) (clientIp io)] else []) \<and>
   accepted_sdl io s =
     (if state s = OPEN \<and> clientSocket io \<noteq> 0
      then [newTCPConnection (clientSocket io) (clientIp io)] else []) \<and>
   (\<forall>accepted returned s'. serverHistory es s = (accepted, returned, s') \<longrightarrow>
      subseq returned (newConnectionsQueue s @ accepted) \<and>
      (ClosePending \<notin> set es \<longrightarrow>
         newConnectionsQueue s @ accepted = returned @ newConnectionsQueue s')) \<and>
   (list_all (\<lambda>io. 0 < pollResult io \<and> revents io = POLLIN) ios \<longrightarrow>
      serverHistory (map WorkerPass ios @ replicate (length ios) GetIncoming)
          (newTCPServer socket) =
        (map (\<lambda>io. newTCPConnection (clientSocket io) (clientIp io)) ios,
         map (\<lambda>io. newTCPConnection (clientSocket io) (clientIp io)) ios,
         newTCPServer socket)) \<and>
   (list_all (\<lambda>io. clientSocket io \<noteq> 0) ios \<longrightarrow>
      serverHistory (map WorkerPassSDL ios @ replicate (length ios) GetIncoming)
          (newTCPServer socket) =
        (map (\<lambda>io. newTCPConnection (clientSocket io) (clientIp io)) ios,
         map (\<lambda>io. newTCPConnection (clientSocket io) (clientIp io)) ios,
         newTCPServer socket))"
proof -
  have m: "map (\<lambda>io. newTCPConnection (clientSocket io) (clientIp io)) ios = map connectionOf ios"
    by (simp add: connectionOf_def)
  have o: "state (newTCPServer socket) = OPEN" "newConnectionsQueue (newTCPServer socket) = []"
    by (simp_all add: newTCPServer_def)
  have g: "getIncomingConnection s = (None, s)" if "newConnectionsQueue s = []"
    using that by (simp add: getIncomingConnection_def)
  have g': "\<forall>c q. newConnectionsQueue s = c # q \<longrightarrow>
      getIncomingConnection s = (Some c, s\<lparr>newConnectionsQueue := q\<rparr>)"
    by (simp add: getIncomingConnection_def)
  have p: "newConnectionsQueue (serverPass_posix io s) =
     newConnectionsQueue s @
       (if state s = OPEN \<and> 0 < pollResult io \<and> revents io = POLLIN
        then [newTCPConnection (clientSocket io) (clientIp io)] else [])"
    using serverPass_posix_queue [of io s] by (simp add: accepted_posix_def connectionOf_def)
  have q: "newConnectionsQueue (serverPass_sdl io s) =
     newConnectionsQueue s @
       (if state s = OPEN \<and> clientSocket io \<noteq> 0
        then [newTCPConnection (clientSocket io) (clientIp io)] else [])"
    using serverPass_sdl_queue [of io s] by (simp add: accepted_sdl_def connectionOf_def)
  have ap: "accepted_posix io s =
     (if state s = OPEN \<and> 0 < pollResult io \<and> revents io = POLLIN
      then [newTCPConnection (clientSocket io) (clientIp io)] else [])"
    by (simp add: accepted_posix_def connectionOf_def)
  have aq: "accepted_sdl io s =
     (if state s = OPEN \<and> clientSocket io \<noteq> 0
      then [newTCPConnection (clientSocket io) (clientIp io)] else [])"
    by (simp add: accepted_sdl_def connectionOf_def)
  have h: "\<forall>accepted returned s'. serverHistory es s = (accepted, returned, s') \<longrightarrow>
      subseq returned (newConnectionsQueue s @ accepted) \<and>
      (ClosePending \<notin> set es \<longrightarrow>
         newConnectionsQueue s @ accepted = returned @ newConnectionsQueue s')"
    using serverHistory_fifo by blast
  have hp: "serverHistory (map WorkerPass ios @ replicate (length ios) GetIncoming)
          (newTCPServer socket) =
        (map connectionOf ios, map connectionOf ios, newTCPServer socket)"
    if r: "list_all (\<lambda>io. 0 < pollResult io \<and> revents io = POLLIN) ios"
  proof (rule accepted_then_returned)
    show "serverHistory (map WorkerPass ios @ replicate (length ios) GetIncoming)
        (newTCPServer socket) =
      (case serverHistory (replicate (length ios) GetIncoming)
          ((newTCPServer socket)\<lparr>newConnectionsQueue := [] @ map connectionOf ios\<rparr>) of
        (accepted, returned, s') \<Rightarrow> (map connectionOf ios @ accepted, returned, s'))"
      using history_of_posix_passes [OF o(1) r, of "replicate (length ios) GetIncoming"]
      by (simp only: o(2))
    show "replicate (length ios) GetIncoming = replicate (length (map connectionOf ios)) GetIncoming"
      by simp
  qed
  have hq: "serverHistory (map WorkerPassSDL ios @ replicate (length ios) GetIncoming)
          (newTCPServer socket) =
        (map connectionOf ios, map connectionOf ios, newTCPServer socket)"
    if r: "list_all (\<lambda>io. clientSocket io \<noteq> 0) ios"
  proof (rule accepted_then_returned)
    show "serverHistory (map WorkerPassSDL ios @ replicate (length ios) GetIncoming)
        (newTCPServer socket) =
      (case serverHistory (replicate (length ios) GetIncoming)
          ((newTCPServer socket)\<lparr>newConnectionsQueue := [] @ map connectionOf ios\<rparr>) of
        (accepted, returned, s') \<Rightarrow> (map connectionOf ios @ accepted, returned, s'))"
      using history_of_sdl_passes [OF o(1) r, of "replicate (length ios) GetIncoming"]
      by (simp only: o(2))
    show "replicate (length ios) GetIncoming = replicate (length (map connectionOf ios)) GetIncoming"
      by simp
  qed
  show ?thesis
    unfolding m
    using g g' p q ap aq h hp hq by blast
qed

theorem getIncomingConnection_fifo_witness:
  "newConnectionsQueue (newTCPServer 3) = [] \<and>
   getIncomingConnection (newTCPServer 3) = (None, newTCPServer 3) \<and>
   ClosePending \<notin> set [WorkerPass (exampleAccept 4), WorkerPassSDL (exampleAccept 5), GetIncoming,
      WorkerPass (exampleAccept 6), GetIncoming, GetIncoming, GetIncoming] \<and>
   serverHistory [WorkerPass (exampleAccept 4), WorkerPassSDL (exampleAccept 5), GetIncoming,
      WorkerPass (exampleAccept 6), GetIncoming, GetIncoming, GetIncoming] (newTCPServer 3) =
     ([newTCPConnection 4 (0, 0), newTCPConnection 5 (0, 0), newTCPConnection 6 (0, 0)],
      [newTCPConnection 4 (0, 0), newTCPConnection 5 (0, 0), newTCPConnection 6 (0, 0)],
      newTCPServer 3) \<and>
   list_all (\<lambda>io. 0 < pollResult io \<and> revents io = POLLIN) [exampleAccept 4, exampleAccept 5] \<and>
   list_all (\<lambda>io. clientSocket io \<noteq> 0) [exampleAccept 4, exampleAccept 5] \<and>
   serverHistory [WorkerPass (exampleAccept 4), WorkerPass (exampleAccept 5), GetIncoming,
      GetIncoming] (newTCPServer 3) =
     ([newTCPConnection 4 (0, 0), newTCPConnection 5 (0, 0)],
      [newTCPConnection 4 (0, 0), newTCPConnection 5 (0, 0)], newTCPServer 3) \<and>
   newConnectionsQueue (serverPass_posix ((exampleAccept 4)\<lparr>pollResult := 0\<rparr>) (newTCPServer 3))
     = [] \<and>
   newConnectionsQueue (serverPass_sdl (exampleAccept 0) (newTCPServer 3)) = []"
  using getIncomingConnection_fifo [of "newTCPServer 3" "exampleAccept 4"
      "[WorkerPass (exampleAccept 4), WorkerPassSDL (exampleAccept 5), GetIncoming,
        WorkerPass (exampleAccept 6), GetIncoming, GetIncoming, GetIncoming]"
      "[exampleAccept 4, exampleAccept 5]" 3]
  by (simp add: newTCPServer_def exampleAccept_def serverPass_posix_def serverPass_sdl_def
      accepted_posix_def accepted_sdl_def connectionOf_def isOpen_def POLLIN_def
      getIncomingConnection_def)

text \<open>
  Claim C10. On the POSIX backend the server's worker does not look at what \<open>accept\<close>
  returned: whenever the server is open and \<open>poll\<close> reports the listening socket
  readable, the pass appends to \<open>newConnectionsQueue\<close> a connection built on the returned
  descriptor, whatever it is, \<open>-1\<close> included; the server neither warns nor leaves
  \<open>OPEN\<close>, and the new connection is \<open>OPEN\<close> with no warning, so the failure of
  \<open>accept\<close> is left to the connection's own worker to find.
\<close>

theorem accept_result_unchecked:
  "isOpen s \<and> 0 < pollResult io \<and> revents io = POLLIN \<longrightarrow>
     serverPass_posix io s =
       s\<lparr>newConnectionsQueue :=
           newConnectionsQueue s @ [newTCPConnection (clientSocket io) (clientIp io)]\<rparr> \<and>
     tcpSocket (last (newConnectionsQueue (serverPass_posix io s))) = clientSocket io \<and>
     isOpen (last (newConnectionsQueue (serverPass_posix io s))) \<and>
     warnings (last (newConnectionsQueue (serverPass_posix io s))) = 0 \<and>
     warnings (serverPass_posix io s) = warnings s \<and>
     isOpen (serverPass_posix io s)"
  by (simp add: serverPass_posix_def newTCPConnection_def isOpen_def)

theorem accept_result_unchecked_witness:
  "isOpen (newTCPServer 3) \<and> 0 < pollResult (exampleAccept (- 1)) \<and>
   revents (exampleAccept (- 1)) = POLLIN \<and>
   newConnectionsQueue (serverPass_posix (exampleAccept (- 1)) (newTCPServer 3)) =
     [newTCPConnection (- 1) (0, 0)] \<and>
   tcpSocket (last (newConnectionsQueue (serverPass_posix (exampleAccept (- 1)) (newTCPServer 3))))
     = - 1 \<and>
   fst (getIncomingConnection (serverPass_posix (exampleAccept (- 1)) (newTCPServer 3))) =
     Some (newTCPConnection (- 1) (0, 0))"
  using accept_result_unchecked [of "newTCPServer 3" "exampleAccept (- 1)"]
  by (simp add: newTCPServer_def exampleAccept_def isOpen_def POLLIN_def
      getIncomingConnection_def serverPass_posix_def newTCPConnection_def)

section \<open>Sending the out-queue\<close>

lemma int_of_size_small:
  assumes "n < 2 ^ 31"
  shows "int_of_size n = int n"
proof -
  have "int_of_size n = signed_take_bit 31 (int n)"
    by (simp add: int_of_size_def signed_of_nat)
  also have "\<dots> = int n"
    using assms by (intro signed_take_bit_int_eq_self) simp_all
  finally show ?thesis .
qed

lemma sendLoop_posix_shape:
  "\<exists>j. j \<le> length q \<and> outQueue (sendLoop_posix send k q c) = drop j q \<and>
     (\<forall>i<j. int_of_size (length (q ! i)) \<le> send (k + i)) \<and>
     (if j < length q
      then send (k + j) < int_of_size (length (q ! j)) \<and>
           state (sendLoop_posix send k q c) = CLOSING \<and>
           warnings (sendLoop_posix send k q c) = Suc (warnings c)
      else state (sendLoop_posix send k q c) = state c \<and>
           warnings (sendLoop_posix send k q c) = warnings c)"
proof (induction q arbitrary: k)
  case Nil
  then show ?case by simp
next
  case (Cons data q)
  show ?case
  proof (cases "send k < int_of_size (length data)")
    case True
    then show ?thesis
      by (intro exI [of _ 0]) (simp add: setState_def WARN_def)
  next
    case False
    from Cons.IH [of "Suc k"] obtain j where
      j: "j \<le> length q" "outQueue (sendLoop_posix send (Suc k) q c) = drop j q"
        "\<forall>i<j. int_of_size (length (q ! i)) \<le> send (Suc k + i)"
        "if j < length q
         then send (Suc k + j) < int_of_size (length (q ! j)) \<and>
           state (sendLoop_posix send (Suc k) q c) = CLOSING \<and>
           warnings (sendLoop_posix send (Suc k) q c) = Suc (warnings c)
         else state (sendLoop_posix send (Suc k) q c) = state c \<and>
           warnings (sendLoop_posix send (Suc k) q c) = warnings c"
      by blast
    have all: "\<forall>i<Suc j. int_of_size (length ((data # q) ! i)) \<le> send (k + i)"
    proof (intro allI impI)
      fix i assume "i < Suc j"
      then show "int_of_size (length ((data # q) ! i)) \<le> send (k + i)"
        using False j(3) by (cases i) auto
    qed
    show ?thesis
      using False j(1,2,4) all by (intro exI [of _ "Suc j"]) (simp split: if_splits)
  qed
qed

lemma sendLoop_sdl_shape:
  "\<exists>j. j \<le> length q \<and> outQueue (sendLoop_sdl send k q c) = drop j q \<and>
     (\<forall>i<j. int_of_size (length (q ! i)) \<le> send (k + i)) \<and>
     (if j < length q
      then send (k + j) < int_of_size (length (q ! j)) \<and>
           state (sendLoop_sdl send k q c) = CLOSING
      else state (sendLoop_sdl send k q c) = state c) \<and>
     warnings (sendLoop_sdl send k q c) = warnings c"
proof (induction q arbitrary: k)
  case Nil
  then show ?case by simp
next
  case (Cons data q)
  show ?case
  proof (cases "send k < int_of_size (length data)")
    case True
    then show ?thesis
      by (intro exI [of _ 0]) (simp add: setState_def)
  next
    case False
    from Cons.IH [of "Suc k"] obtain j where
      j: "j \<le> length q" "outQueue (sendLoop_sdl send (Suc k) q c) = drop j q"
        "\<forall>i<j. int_of_size (length (q ! i)) \<le> send (Suc k + i)"
        "if j < length q
         then send (Suc k + j) < int_of_size (length (q ! j)) \<and>
           state (sendLoop_sdl send (Suc k) q c) = CLOSING
         else state (sendLoop_sdl send (Suc k) q c) = state c"
        "warnings (sendLoop_sdl send (Suc k) q c) = warnings c"
      by blast
    have all: "\<forall>i<Suc j. int_of_size (length ((data # q) ! i)) \<le> send (k + i)"
    proof (intro allI impI)
      fix i assume "i < Suc j"
      then show "int_of_size (length ((data # q) ! i)) \<le> send (k + i)"
        using False j(3) by (cases i) auto
    qed
    show ?thesis
      using False j(1,2,4,5) all by (intro exI [of _ "Suc j"]) (simp split: if_splits)
  qed
qed

text \<open>
  With every chunk shorter than \<open>2 ^ 31\<close> bytes, \<open>len\<close> is the chunk's length, and a
  drain pops the first \<open>j\<close> chunks, each after one \<open>send\<close> that returned at least its
  length, and leaves the others in place: chunk \<open>j\<close>, if there is one, after one
  \<open>send\<close> that returned less than its length, with the state \<open>CLOSING\<close>.
\<close>

lemma drainOutQueue_posix_small_chunks:
  assumes "\<forall>data \<in> set (outQueue c). length data < 2 ^ 31"
  shows "\<exists>j. j \<le> length (outQueue c) \<and>
     outQueue (drainOutQueue_posix send c) = drop j (outQueue c) \<and>
     (\<forall>i<j. int (length (outQueue c ! i)) \<le> send i) \<and>
     (if j < length (outQueue c)
      then send j < int (length (outQueue c ! j)) \<and>
           state (drainOutQueue_posix send c) = CLOSING
      else state (drainOutQueue_posix send c) = state c)"
proof -
  from sendLoop_posix_shape [of "outQueue c" send 0 c] obtain j where
    j: "j \<le> length (outQueue c)"
      "outQueue (sendLoop_posix send 0 (outQueue c) c) = drop j (outQueue c)"
      "\<forall>i<j. int_of_size (length (outQueue c ! i)) \<le> send (0 + i)"
      "if j < length (outQueue c)
       then send (0 + j) < int_of_size (length (outQueue c ! j)) \<and>
           state (sendLoop_posix send 0 (outQueue c) c) = CLOSING \<and>
           warnings (sendLoop_posix send 0 (outQueue c) c) = Suc (warnings c)
       else state (sendLoop_posix send 0 (outQueue c) c) = state c \<and>
           warnings (sendLoop_posix send 0 (outQueue c) c) = warnings c"
    by blast
  have small: "int_of_size (length (outQueue c ! i)) = int (length (outQueue c ! i))"
    if "i < length (outQueue c)" for i
    using assms that by (intro int_of_size_small) simp
  have "\<forall>i<j. int (length (outQueue c ! i)) \<le> send i"
    using j(1,3) small by auto
  moreover have "if j < length (outQueue c)
      then send j < int (length (outQueue c ! j)) \<and>
           state (drainOutQueue_posix send c) = CLOSING
      else state (drainOutQueue_posix send c) = state c"
    using j(4) small by (auto simp: drainOutQueue_posix_def split: if_splits)
  ultimately show ?thesis
    using j(1,2) by (intro exI [of _ j]) (simp add: drainOutQueue_posix_def)
qed

text \<open>
  Claim C4. A chunk of \<open>2 ^ 31\<close> bytes is at the front of \<open>outQueue\<close> and \<open>send\<close>
  fails, returning \<open>-1\<close>: \<open>len\<close> is \<open>- (2 ^ 31)\<close>, the test \<open>send(...) < len\<close> is
  false, and the drain pops the chunk with no warning, the state still \<open>OPEN\<close>; with
  a second chunk behind it the drain goes on to that chunk. On the SDL backend the
  chunk is popped in the same way when \<open>SDLNet_TCP_Send\<close> returns 0.
\<close>

theorem drain_pops_huge_chunk_after_failed_send:
  "length hugeChunk = 2 ^ 31 \<and> int_of_size (length hugeChunk) = - (2 ^ 31) \<and>
   drainOutQueue_posix (\<lambda>k. - 1) (exampleConnection\<lparr>outQueue := [hugeChunk]\<rparr>) =
     exampleConnection\<lparr>outQueue := []\<rparr> \<and>
   state (drainOutQueue_posix (\<lambda>k. - 1) (exampleConnection\<lparr>outQueue := [hugeChunk]\<rparr>)) = OPEN \<and>
   drainOutQueue_posix (\<lambda>k. - 1) (exampleConnection\<lparr>outQueue := [hugeChunk, [7]]\<rparr>) =
     exampleConnection\<lparr>outQueue := [[7]], state := CLOSING, warnings := 1\<rparr> \<and>
   drainOutQueue_sdl (\<lambda>k. 0) (exampleConnection\<lparr>outQueue := [hugeChunk]\<rparr>) =
     exampleConnection\<lparr>outQueue := []\<rparr>"
  by (simp add: hugeChunk_def int_of_size_def drainOutQueue_posix_def drainOutQueue_sdl_def
      exampleConnection_def setState_def WARN_def)

section \<open>Warnings of the worker\<close>








section \<open>The life cycle of a connection\<close>

lemma threadsInv_start: "threadsInv (startedConnection socket address)"
  by (simp add: threadsInv_def startedConnection_def)

lemma threadsInv_worker: "threadsInv t \<Longrightarrow> threadsInv (workerStep b r t)"
  by (cases "worker t") (auto simp: threadsInv_def workerStep_def setState_def WARN_def isOpen_def)

lemma threadsInv_close: "threadsInv t \<Longrightarrow> threadsInv (closeStep k t)"
  by (cases "closers t k")
    (auto simp: threadsInv_def closeStep_def setState_def isOpen_def isActive_def)

lemma threadsInv_step: "threadsInv t \<Longrightarrow> threadsInv (threadStep e t)"
  by (cases e) (simp_all add: threadsInv_worker threadsInv_close)

lemma threadsInv_schedule: "threadsInv t \<Longrightarrow> threadsInv (schedule es t)"
  by (induction es arbitrary: t) (simp_all add: threadsInv_step)

lemma schedule_append: "schedule (es @ es') t = schedule es' (schedule es t)"
  by (induction es arbitrary: t) simp_all


lemma closeStep_worker [simp]: "worker (closeStep k t) = worker t"
  by (cases "closers t k") (simp_all add: closeStep_def setState_def)

lemma closeStep_state:
  "state (closeStep k t) = (if closers t k = C_Tested True then CLOSING else state t)"
  by (cases "closers t k") (simp_all add: closeStep_def setState_def)

lemma closeStep_closers:
  "closers (closeStep k t) k =
     (case closers t k of
        C_NotCalled \<Rightarrow> C_Tested (state t = OPEN)
      | C_Returned \<Rightarrow> C_Tested (state t = OPEN)
      | C_Tested b \<Rightarrow> C_PastIf
      | C_PastIf \<Rightarrow> (if worker t \<noteq> W_Returned then C_InJoin else C_Returned)
      | C_InJoin \<Rightarrow> (if worker t = W_Returned then C_Returned else C_InJoin))"
  by (cases "closers t k") (simp_all add: closeStep_def setState_def isOpen_def isActive_def)

lemma workerStep_closers [simp]: "closers (workerStep b r t) = closers t"
  by (cases "worker t") (simp_all add: workerStep_def setState_def WARN_def)

lemma workerStep_worker:
  "worker (workerStep b r t) =
     (case worker t of
        W_LoopTest \<Rightarrow> (if state t = OPEN then W_Body else W_AfterLoop)
      | W_Body \<Rightarrow> W_LoopTest
      | W_AfterLoop \<Rightarrow> W_Returned
      | W_Returned \<Rightarrow> W_Returned)"
  by (cases "worker t") (simp_all add: workerStep_def setState_def WARN_def isOpen_def)

lemma workerStep_warnings:
  "warnings (workerStep b r t) =
     (if worker t = W_AfterLoop \<and> r \<noteq> 0 then Suc (warnings t) else warnings t)"
  by (cases "worker t") (simp_all add: workerStep_def setState_def WARN_def)

lemma workerStep_state:
  "state (workerStep b r t) =
     (case worker t of
        W_LoopTest \<Rightarrow> state t
      | W_Body \<Rightarrow> (if b then CLOSING else state t)
      | W_AfterLoop \<Rightarrow> CLOSED
      | W_Returned \<Rightarrow> state t)"
  by (cases "worker t") (simp_all add: workerStep_def setState_def WARN_def)

lemma close_test_closed:
  assumes "\<not> isOpen t" "closers t j = C_NotCalled \<or> closers t j = C_Returned"
  shows "closeStep j t = t\<lparr>closers := (closers t)(j := C_Tested False)\<rparr>"
  using assms(2)
proof
  assume "closers t j = C_NotCalled"
  with assms(1) show ?thesis by (simp add: closeStep_def)
next
  assume "closers t j = C_Returned"
  with assms(1) show ?thesis by (simp add: closeStep_def)
qed

lemma close_skip_if:
  assumes "closers t j = C_Tested False"
  shows "closeStep j t = t\<lparr>closers := (closers t)(j := C_PastIf)\<rparr>"
  using assms by (simp add: closeStep_def)

lemma close_skip_join:
  assumes "closers t j = C_PastIf" "worker t = W_Returned"
  shows "closeStep j t = t\<lparr>closers := (closers t)(j := C_Returned)\<rparr>"
  using assms by (simp add: closeStep_def isActive_def)

lemma later_close_is_noop:
  assumes "\<not> isOpen t" "worker t = W_Returned"
    "closers t j = C_NotCalled \<or> closers t j = C_Returned"
  shows "schedule [Closer j, Closer j, Closer j] t = t\<lparr>closers := (closers t)(j := C_Returned)\<rparr>"
proof -
  let ?u = "t\<lparr>closers := (closers t)(j := C_Tested False)\<rparr>"
  let ?v = "t\<lparr>closers := (closers t)(j := C_PastIf)\<rparr>"
  have 1: "closeStep j t = ?u"
    using assms(1,3) by (rule close_test_closed)
  have "closeStep j ?u = ?u\<lparr>closers := (closers ?u)(j := C_PastIf)\<rparr>"
    by (rule close_skip_if) simp
  then have 2: "closeStep j ?u = ?v" by simp
  have "closeStep j ?v = ?v\<lparr>closers := (closers ?v)(j := C_Returned)\<rparr>"
    using assms(2) by (intro close_skip_join) simp_all
  then have 3: "closeStep j ?v = t\<lparr>closers := (closers t)(j := C_Returned)\<rparr>" by simp
  show ?thesis by (simp add: 1 2 3)
qed

lemma worker_finishes:
  assumes "state t \<noteq> OPEN"
  shows "worker (schedule [Worker False 0, Worker False 0, Worker False 0] t) = W_Returned \<and>
         closers (schedule [Worker False 0, Worker False 0, Worker False 0] t) = closers t"
  using assms by (cases "worker t") (simp_all add: workerStep_worker workerStep_state)

lemma join_returns:
  assumes "closers t k = C_PastIf \<or> closers t k = C_InJoin" "worker t = W_Returned"
  shows "closers (closeStep k t) k = C_Returned"
  using assms by (auto simp: closeStep_closers)

lemma close_after_test:
  assumes "closers t k = C_PastIf \<or> closers t k = C_InJoin" "state t \<noteq> OPEN"
  shows "closers (schedule [Worker False 0, Worker False 0, Worker False 0, Closer k] t) k = C_Returned"
proof -
  let ?u = "schedule [Worker False 0, Worker False 0, Worker False 0] t"
  from worker_finishes [OF assms(2)] have "worker ?u = W_Returned" "closers ?u = closers t"
    by simp_all
  with assms(1) have "closers (closeStep k ?u) k = C_Returned"
    by (intro join_returns) simp_all
  then show ?thesis by simp
qed

lemma close_can_return:
  assumes "threadsInv t"
  shows "\<exists>es. closers (schedule es t) k = C_Returned"
proof (cases "closers t k")
  case C_NotCalled
  let ?u = "schedule [Closer k, Closer k] t"
  from C_NotCalled have "closers ?u k = C_PastIf" "state ?u \<noteq> OPEN"
    by (simp_all add: closeStep_closers closeStep_state)
  then have "closers (schedule [Worker False 0, Worker False 0, Worker False 0, Closer k] ?u) k
      = C_Returned"
    by (intro close_after_test) simp_all
  then have "closers (schedule ([Closer k, Closer k] @
      [Worker False 0, Worker False 0, Worker False 0, Closer k]) t) k = C_Returned"
    by (simp only: schedule_append)
  then show ?thesis by blast
next
  case (C_Tested b)
  with assms have "b \<or> state t \<noteq> OPEN"
    by (auto simp: threadsInv_def)
  let ?u = "schedule [Closer k] t"
  from C_Tested \<open>b \<or> state t \<noteq> OPEN\<close> have "closers ?u k = C_PastIf" "state ?u \<noteq> OPEN"
    by (auto simp: closeStep_closers closeStep_state)
  then have "closers (schedule [Worker False 0, Worker False 0, Worker False 0, Closer k] ?u) k
      = C_Returned"
    by (intro close_after_test) simp_all
  then have "closers (schedule ([Closer k] @
      [Worker False 0, Worker False 0, Worker False 0, Closer k]) t) k = C_Returned"
    by (simp only: schedule_append)
  then show ?thesis by blast
next
  case C_PastIf
  with assms have "state t \<noteq> OPEN"
    by (auto simp: threadsInv_def)
  with C_PastIf
  have "closers (schedule [Worker False 0, Worker False 0, Worker False 0, Closer k] t) k = C_Returned"
    by (intro close_after_test) simp_all
  then show ?thesis by blast
next
  case C_InJoin
  with assms have "state t \<noteq> OPEN"
    by (auto simp: threadsInv_def)
  with C_InJoin
  have "closers (schedule [Worker False 0, Worker False 0, Worker False 0, Closer k] t) k = C_Returned"
    by (intro close_after_test) simp_all
  then show ?thesis by blast
next
  case C_Returned
  then have "closers (schedule [] t) k = C_Returned" by simp
  then show ?thesis by blast
qed

lemma state_goes_back_only_on_stale_close:
  assumes "threadsInv t" "rank (state (threadStep e t)) < rank (state t)"
  shows "\<exists>k. e = Closer k \<and> closers t k = C_Tested True \<and> state t = CLOSED"
proof (cases e)
  case (Worker b r)
  with assms show ?thesis
    by (cases "worker t"; cases "state t")
      (auto simp: workerStep_state threadsInv_def split: if_splits)
next
  case (Closer k)
  with assms(2) show ?thesis
    by (cases "state t") (auto simp: closeStep_state split: if_splits)
qed

lemma closed_only_by_worker:
  assumes "state (threadStep e t) = CLOSED" "state t \<noteq> CLOSED"
  shows "\<exists>b r. e = Worker b r \<and> worker t = W_AfterLoop"
proof (cases e)
  case (Worker b r)
  with assms show ?thesis
    by (cases "worker t") (auto simp: workerStep_state split: if_splits)
next
  case (Closer k)
  with assms show ?thesis
    by (auto simp: closeStep_state split: if_splits)
qed

lemma never_open_again:
  assumes "state t \<noteq> OPEN"
  shows "state (threadStep e t) \<noteq> OPEN"
proof (cases e)
  case (Worker b r)
  with assms show ?thesis
    by (cases "worker t") (auto simp: workerStep_state)
next
  case (Closer k)
  with assms show ?thesis
    by (auto simp: closeStep_state)
qed

text \<open>
  Claim C6. In every interleaving of the worker with any number of threads calling
  \<open>close\<close> on a started connection, once a call of \<open>close\<close> has returned: \<open>isOpen\<close> is
  false, the worker has returned from \<open>run\<close> (the thread is not active any more), and
  the socket has been closed exactly once, its descriptor replaced by 0; and a call of
  \<open>close\<close> made from then on by any thread runs its three steps without changing the
  connection. From every interleaving, as every pass of the worker's loop ends, a call
  of \<open>close\<close> by any thread can run to its return.
\<close>

theorem close_joins_worker_once:
  "(\<forall>k. closers (schedule es (startedConnection socket address)) k = C_Returned \<longrightarrow>
      \<not> isOpen (schedule es (startedConnection socket address)) \<and>
      worker (schedule es (startedConnection socket address)) = W_Returned \<and>
      \<not> isActive (schedule es (startedConnection socket address)) \<and>
      socketCloses (schedule es (startedConnection socket address)) = 1 \<and>
      tcpSocket (schedule es (startedConnection socket address)) = 0 \<and>
      (\<forall>j. closers (schedule es (startedConnection socket address)) j = C_NotCalled \<or>
           closers (schedule es (startedConnection socket address)) j = C_Returned \<longrightarrow>
         schedule [Closer j, Closer j, Closer j] (schedule es (startedConnection socket address)) =
           (schedule es (startedConnection socket address))
             \<lparr>closers := (closers (schedule es (startedConnection socket address)))
                 (j := C_Returned)\<rparr>)) \<and>
   (\<forall>k. \<exists>es'. closers (schedule (es @ es') (startedConnection socket address)) k = C_Returned)"
proof -
  let ?t = "schedule es (startedConnection socket address)"
  have inv: "threadsInv ?t"
    by (simp add: threadsInv_schedule threadsInv_start)
  have post: "\<not> isOpen ?t \<and> worker ?t = W_Returned \<and> \<not> isActive ?t \<and> socketCloses ?t = 1 \<and>
      tcpSocket ?t = 0 \<and>
      (\<forall>j. closers ?t j = C_NotCalled \<or> closers ?t j = C_Returned \<longrightarrow>
         schedule [Closer j, Closer j, Closer j] ?t = ?t\<lparr>closers := (closers ?t)(j := C_Returned)\<rparr>)"
    if r: "closers ?t k = C_Returned" for k
  proof -
    from inv r have w: "worker ?t = W_Returned" and o: "\<not> isOpen ?t"
      and c: "socketCloses ?t = 1" and s: "tcpSocket ?t = 0"
      by (auto simp: threadsInv_def isOpen_def)
    from later_close_is_noop [OF o w] w o c s show ?thesis
      by (simp add: isActive_def)
  qed
  have "\<exists>es'. closers (schedule (es @ es') (startedConnection socket address)) k = C_Returned" for k
    using close_can_return [OF inv, of k] by (simp add: schedule_append)
  with post show ?thesis by blast
qed

theorem close_joins_worker_once_witness:
  "closers (schedule [Closer 0, Closer 0, Closer 0, Worker False 0, Worker False 0, Closer 0]
      (startedConnection 7 (0, 0))) 0 = C_Returned \<and>
   \<not> isOpen (schedule [Closer 0, Closer 0, Closer 0, Worker False 0, Worker False 0, Closer 0]
      (startedConnection 7 (0, 0))) \<and>
   worker (schedule [Closer 0, Closer 0, Closer 0, Worker False 0, Worker False 0, Closer 0]
      (startedConnection 7 (0, 0))) = W_Returned \<and>
   socketCloses (schedule [Closer 0, Closer 0, Closer 0, Worker False 0, Worker False 0, Closer 0]
      (startedConnection 7 (0, 0))) = 1 \<and>
   closers (schedule [Closer 0, Closer 0, Closer 0, Worker False 0, Worker False 0, Closer 0]
      (startedConnection 7 (0, 0))) 1 = C_NotCalled \<and>
   schedule [Closer 1, Closer 1, Closer 1]
     (schedule [Closer 0, Closer 0, Closer 0, Worker False 0, Worker False 0, Closer 0]
        (startedConnection 7 (0, 0))) =
     (schedule [Closer 0, Closer 0, Closer 0, Worker False 0, Worker False 0, Closer 0]
        (startedConnection 7 (0, 0)))
       \<lparr>closers := (closers (schedule [Closer 0, Closer 0, Closer 0, Worker False 0, Worker False 0,
           Closer 0] (startedConnection 7 (0, 0))))(1 := C_Returned)\<rparr>"
proof -
  let ?t = "schedule [Closer 0, Closer 0, Closer 0, Worker False 0, Worker False 0, Closer 0]
      (startedConnection 7 (0, 0))"
  have r: "closers ?t 0 = C_Returned" and n: "closers ?t 1 = C_NotCalled"
    by (simp_all add: startedConnection_def closeStep_def workerStep_def isOpen_def isActive_def
        setState_def WARN_def)
  note post = close_joins_worker_once [of "[Closer 0, Closer 0, Closer 0, Worker False 0,
      Worker False 0, Closer 0]" 7 "(0, 0)", THEN conjunct1, THEN spec, of 0, THEN mp, OF r]
  have p1: "\<not> isOpen ?t" using post by (elim conjE)
  have p2: "worker ?t = W_Returned" using post by (elim conjE)
  have p3: "socketCloses ?t = 1" using post by (elim conjE)
  have q: "\<forall>j. closers ?t j = C_NotCalled \<or> closers ?t j = C_Returned \<longrightarrow>
      schedule [Closer j, Closer j, Closer j] ?t = ?t\<lparr>closers := (closers ?t)(j := C_Returned)\<rparr>"
    using post by (elim conjE)
  have p4: "schedule [Closer 1, Closer 1, Closer 1] ?t = ?t\<lparr>closers := (closers ?t)(1 := C_Returned)\<rparr>"
    using q [THEN spec, of 1] n by (elim impE) (rule disjI1)
  show ?thesis using r p1 p2 p3 n p4 by (intro conjI)
qed

text \<open>
  Claim C5. A thread in \<open>close\<close> has tested \<open>isOpen()\<close> and found it true. Before it
  calls \<open>setState(CLOSING)\<close>, the worker meets the peer's shutdown, sets \<open>CLOSING\<close>,
  leaves its loop, closes the socket and sets \<open>CLOSED\<close>. The thread then stores
  \<open>CLOSING\<close>: the state goes from \<open>CLOSED\<close> back to \<open>CLOSING\<close>, and stays there
  when \<open>close\<close> returns.
\<close>

theorem close_race_moves_state_back:
  "state (schedule [Closer 0, Worker False 0, Worker True 0, Worker False 0, Worker False 0]
      (startedConnection 7 (0, 0))) = CLOSED \<and>
   state (schedule [Closer 0, Worker False 0, Worker True 0, Worker False 0, Worker False 0, Closer 0]
      (startedConnection 7 (0, 0))) = CLOSING \<and>
   state (schedule [Closer 0, Worker False 0, Worker True 0, Worker False 0, Worker False 0, Closer 0,
      Closer 0] (startedConnection 7 (0, 0))) = CLOSING \<and>
   closers (schedule [Closer 0, Worker False 0, Worker True 0, Worker False 0, Worker False 0, Closer 0,
      Closer 0] (startedConnection 7 (0, 0))) 0 = C_Returned \<and>
   rank CLOSING < rank CLOSED"
  by (simp add: startedConnection_def closeStep_def workerStep_def isOpen_def isActive_def
      setState_def WARN_def)

end
